theory Spec2Isabelle
  imports Complex_Main "HOL-Library.Multiset" "HOL-Library.AList"
begin

section \<open>Shader code pieces: \<open>shader_lib/piece/3param_func.js\<close>\<close>

text \<open>
  \<open>CodePiece.VERTEX\<close>, \<open>CodePiece.FRAGMENT\<close> and \<open>CodePiece.BOTH\<close> are constants of
  the \<open>CodePiece\<close> class, which is not among the source files: they are taken as a
  parameter, with no assumption on their values.
\<close>

record CodePiece_consts =
  VERTEX :: int
  FRAGMENT :: int
  BOTH :: int

text \<open>
  Modelled from the spec: the \<open>CodePiece\<close> class (a body text and an include mapping
  from names to snippets, set by \<open>setBody\<close> and \<open>setIncludes\<close>) and the
  \<open>ShaderCode\<close> triple built from a vertex piece, a fragment piece and the output
  variable; \<open>code_order\<close> is the \<open>order\<close> stamp a node writes on it.
\<close>

record CodePiece =
  body :: string
  piece_includes :: "string \<rightharpoonup> string"

record ShaderCode =
  vertex :: CodePiece
  fragment :: CodePiece
  out_var :: string
  code_order :: "nat option"

definition new_CodePiece :: CodePiece where
  "new_CodePiece = \<lparr>body = [], piece_includes = Map.empty\<rparr>"

definition setBody :: "string \<Rightarrow> CodePiece \<Rightarrow> CodePiece" where
  "setBody s p = p\<lparr>body := s\<rparr>"

definition setIncludes :: "(string \<rightharpoonup> string) \<Rightarrow> CodePiece \<Rightarrow> CodePiece" where
  "setIncludes inc p = p\<lparr>piece_includes := inc\<rparr>"

definition new_ShaderCode :: "CodePiece \<Rightarrow> CodePiece \<Rightarrow> string \<Rightarrow> ShaderCode" where
  "new_ShaderCode v f ov = \<lparr>vertex = v, fragment = f, out_var = ov, code_order = None\<rparr>"

text \<open>
  \<open>function P3ParamFunc (type, name)\<close>: \<open>type\<close> is \<open>undefined\<close> (\<open>None\<close>) for the
  entries \<open>refract\<close> and \<open>mix\<close> of the library.
\<close>

record P3ParamFunc =
  func_type :: "string option"
  func_name :: string
  func_id :: string
  func_includes :: "string \<rightharpoonup> string"

definition new_P3ParamFunc :: "string option \<Rightarrow> string \<Rightarrow> P3ParamFunc" where
  "new_P3ParamFunc ty nm =
     \<lparr>func_type = ty, func_name = nm, func_id = ''3paramfunc'', func_includes = Map.empty\<rparr>"

text \<open>
  \<open>out_type || this.type\<close> on values that are a string or \<open>undefined\<close>: the left
  operand is taken when it is truthy, that is a non-empty string.
\<close>

definition js_or :: "string option \<Rightarrow> string option \<Rightarrow> string option" where
  "js_or x y = (case x of None \<Rightarrow> y | Some s \<Rightarrow> if s = [] then y else Some s)"

text \<open>String concatenation renders \<open>undefined\<close> as the text \<open>undefined\<close>.\<close>

definition js_str :: "string option \<Rightarrow> string" where
  "js_str x = (case x of None \<Rightarrow> ''undefined'' | Some s \<Rightarrow> s)"

definition assignment_code ::
  "P3ParamFunc \<Rightarrow> string \<Rightarrow> string \<Rightarrow> string \<Rightarrow> string \<Rightarrow> string option \<Rightarrow> string" where
  "assignment_code this ov a b c out_type =
     js_str (js_or out_type (func_type this)) @ '' '' @ ov @ '' = '' @ func_name this
       @ ''('' @ a @ '','' @ b @ '','' @ c @ '');'' @ [CHR 0x0A]"

definition getVertexCode ::
  "CodePiece_consts \<Rightarrow> P3ParamFunc \<Rightarrow> string \<Rightarrow> string \<Rightarrow> string \<Rightarrow> string \<Rightarrow> int
     \<Rightarrow> string option \<Rightarrow> string" where
  "getVertexCode K this ov a b c scope out_type =
     (if scope = VERTEX K \<or> scope = BOTH K then assignment_code this ov a b c out_type
      else [])"

definition getFragmentCode ::
  "CodePiece_consts \<Rightarrow> P3ParamFunc \<Rightarrow> string \<Rightarrow> string \<Rightarrow> string \<Rightarrow> string \<Rightarrow> int
     \<Rightarrow> string option \<Rightarrow> string" where
  "getFragmentCode K this ov a b c scope out_type =
     (if scope = FRAGMENT K \<or> scope = BOTH K then assignment_code this ov a b c out_type
      else [])"

definition getCode ::
  "CodePiece_consts \<Rightarrow> P3ParamFunc \<Rightarrow> string \<Rightarrow> string \<Rightarrow> string \<Rightarrow> string \<Rightarrow> int
     \<Rightarrow> string option \<Rightarrow> ShaderCode" where
  "getCode K this ov a b c scope out_type =
     (let vertex = setIncludes (func_includes this)
                     (setBody (getVertexCode K this ov a b c scope out_type) new_CodePiece);
          fragment = setIncludes (func_includes this)
                     (setBody (getFragmentCode K this ov a b c scope out_type) new_CodePiece)
      in new_ShaderCode vertex fragment ov)"

section \<open>The graph: \<open>core/graph.js\<close>\<close>

subsection \<open>Data\<close>

text \<open>
  Node objects live in a store and are referred to by address, as the graph's containers
  \<open>_nodes\<close>, \<open>_nodes_by_id\<close> and \<open>_nodes_in_order\<close> share them by reference.
  The id of a node is a number, \<open>-1\<close> while the node is detached.
  An input slot holds the id of at most one link (\<open>link\<close>, \<open>null\<close> when free), an
  output slot an array of link ids (\<open>links\<close>, possibly \<open>null\<close>). The arrays
  \<open>inputs\<close> and \<open>outputs\<close> of a node may be missing and may hold \<open>null\<close> entries;
  the code tests for both.
\<close>

type_synonym addr = nat

record input_slot =
  slot_link :: "int option"

record output_slot =
  slot_links :: "int list option"

datatype jsval = Undefined | Null | Boolean bool | Number real | String string

record node =
  node_id :: int
  title :: string
  node_type :: string
  inputs :: "input_slot option list option"
  outputs :: "output_slot option list option"
  order :: "string option"
  ignore_remove :: bool
  has_graph :: bool
  has_setValue :: bool
  properties_value :: jsval

record link =
  link_id :: int
  origin_id :: int
  origin_slot :: nat
  target_id :: int
  target_slot :: nat

record global =
  global_name :: string
  global_type :: string
  global_value :: jsval

text \<open>
  The fields of an \<open>LGraph\<close> that \<open>clear\<close> sets, with the node store. The objects
  \<open>_nodes_by_id\<close> and \<open>links\<close> are maps over their own keys, which are numbers;
  \<open>global_inputs\<close> and \<open>global_outputs\<close> hold their own keys, which are names (what a
  lookup finds under a name that is not an own key is described with the global
  inputs). Times are kept as real numbers.
\<close>

record lgraph =
  heap :: "addr \<Rightarrow> node"
  status :: nat
  last_node_id :: int
  nodes :: "addr list"
  nodes_by_id :: "int \<rightharpoonup> addr"
  nodes_in_order :: "addr list option"
  last_link_id :: int
  links :: "int \<rightharpoonup> link"
  iteration :: int
  globaltime :: real
  fixedtime :: real
  fixedtime_lapse :: real
  elapsed_time :: real
  starttime :: real
  global_inputs :: "string \<rightharpoonup> global"
  global_outputs :: "string \<rightharpoonup> global"
  errors_in_execution :: "bool option"
  execution_timer_id :: "nat option"

definition STATUS_STOPPED :: nat where
  "STATUS_STOPPED = 1"

definition STATUS_RUNNING :: nat where
  "STATUS_RUNNING = 2"

text \<open>A thrown value: the string of a \<open>throw("...")\<close>, or a \<open>TypeError\<close> of the engine.\<close>

datatype exn = Thrown string | TypeError string

text \<open>The graph the constructor leaves (\<open>clear\<close> on a fresh object), over a node store.\<close>

definition new_LGraph :: "(addr \<Rightarrow> node) \<Rightarrow> lgraph" where
  "new_LGraph h =
     \<lparr>heap = h, status = STATUS_STOPPED, last_node_id = 0, nodes = [], nodes_by_id = Map.empty,
      nodes_in_order = None, last_link_id = 0, links = Map.empty, iteration = 0,
      globaltime = 0, fixedtime = 0, fixedtime_lapse = 0.01, elapsed_time = 0.01,
      starttime = 0, global_inputs = Map.empty, global_outputs = Map.empty,
      errors_in_execution = None, execution_timer_id = None\<rparr>"

definition getNodeById :: "lgraph \<Rightarrow> int \<Rightarrow> addr option" where
  "getNodeById g i = nodes_by_id g i"

subsection \<open>computeExecutionOrder\<close>

text \<open>\<open>num\<close>: the number of entries of \<open>n.inputs\<close> that are slots with a link.\<close>

definition connected :: "input_slot option \<Rightarrow> bool" where
  "connected s = (case s of None \<Rightarrow> False | Some i \<Rightarrow> slot_link i \<noteq> None)"

definition count_inputs :: "node \<Rightarrow> nat" where
  "count_inputs n = (case inputs n of None \<Rightarrow> 0 | Some ins \<Rightarrow> length (filter connected ins))"

text \<open>
  The first loop, one node of \<open>_nodes\<close>: the objects \<open>M\<close> and \<open>remaining_links\<close> are
  association lists in the order their keys were created (assigning to a key that
  exists keeps its place).
\<close>

definition seed_node ::
  "lgraph \<Rightarrow> addr \<Rightarrow> addr list \<times> (int \<times> addr) list \<times> (int \<times> int) list
     \<Rightarrow> addr list \<times> (int \<times> addr) list \<times> (int \<times> int) list" where
  "seed_node g a st =
     (case st of (S, M, R) \<Rightarrow>
        (let n = heap g a;
             M' = AList.update (node_id n) a M;
             num = count_inputs n
         in if num = 0 then (S @ [a], M', R)
            else (S, M', AList.update (node_id n) (int num) R)))"

text \<open>
  The body of the innermost loop, for one entry \<open>link_id\<close> of \<open>output.links\<close>.
  \<open>remaining_links[target_node.id] -= 1\<close> on a key that is not there gives \<open>NaN\<close>,
  which never equals \<open>0\<close> and stays \<open>NaN\<close>: a key with no entry stands for both
  \<open>undefined\<close> and \<open>NaN\<close>.
\<close>

definition visit_link ::
  "lgraph \<Rightarrow> int \<Rightarrow> addr list \<times> int set \<times> (int \<times> int) list
     \<Rightarrow> addr list \<times> int set \<times> (int \<times> int) list" where
  "visit_link g k st =
     (case st of (S, V, R) \<Rightarrow>
        (case links g k of
           None \<Rightarrow> (S, V, R)
         | Some l \<Rightarrow>
             if link_id l \<in> V then (S, V, R)
             else (case getNodeById g (target_id l) of
                     None \<Rightarrow> (S, insert (link_id l) V, R)
                   | Some t \<Rightarrow>
                       (case map_of R (node_id (heap g t)) of
                          None \<Rightarrow> (S, insert (link_id l) V, R)
                        | Some c \<Rightarrow>
                            (if c - 1 = 0 then S @ [t] else S,
                             insert (link_id l) V,
                             AList.update (node_id (heap g t)) (c - 1) R)))))"

definition visit_output ::
  "lgraph \<Rightarrow> output_slot option \<Rightarrow> addr list \<times> int set \<times> (int \<times> int) list
     \<Rightarrow> addr list \<times> int set \<times> (int \<times> int) list" where
  "visit_output g out st =
     (case out of
        None \<Rightarrow> st
      | Some ou \<Rightarrow> (case slot_links ou of None \<Rightarrow> st | Some ks \<Rightarrow> fold (visit_link g) ks st))"

definition visit_node ::
  "lgraph \<Rightarrow> addr \<Rightarrow> addr list \<times> int set \<times> (int \<times> int) list
     \<Rightarrow> addr list \<times> int set \<times> (int \<times> int) list" where
  "visit_node g a st =
     (case outputs (heap g a) of None \<Rightarrow> st | Some outs \<Rightarrow> fold (visit_output g) outs st)"

text \<open>The number of keys of \<open>remaining_links\<close> still waiting for a link.\<close>

definition waiting :: "(int \<times> int) list \<Rightarrow> nat" where
  "waiting R = length (filter (\<lambda>p. 1 \<le> snd p) R)"

lemma waiting_update:
  "map_of R k = Some c \<Longrightarrow>
     waiting (AList.update k (c - 1) R) = (if c = 1 then waiting R - 1 else waiting R)
     \<and> (c = 1 \<longrightarrow> 0 < waiting R)"
  by (induction R) (auto simp: waiting_def split: if_splits)

lemma visit_link_measure:
  "visit_link g k (S, V, R) = (S', V', R') \<Longrightarrow> length S' + waiting R' \<le> length S + waiting R"
  using waiting_update
  by (fastforce simp: visit_link_def split: option.splits if_splits)

lemma fold_visit_link_measure:
  "fold (visit_link g) ks (S, V, R) = (S', V', R')
     \<Longrightarrow> length S' + waiting R' \<le> length S + waiting R"
proof (induction ks arbitrary: S V R)
  case Nil
  then show ?case by simp
next
  case (Cons k ks)
  obtain S1 V1 R1 where s: "visit_link g k (S, V, R) = (S1, V1, R1)"
    by (cases "visit_link g k (S, V, R)") auto
  from Cons.prems s have "fold (visit_link g) ks (S1, V1, R1) = (S', V', R')"
    by simp
  from Cons.IH [OF this] visit_link_measure [OF s] show ?case
    by linarith
qed

lemma visit_output_measure:
  "visit_output g out (S, V, R) = (S', V', R')
     \<Longrightarrow> length S' + waiting R' \<le> length S + waiting R"
  by (auto simp: visit_output_def split: option.splits dest: fold_visit_link_measure)

lemma fold_visit_output_measure:
  "fold (visit_output g) outs (S, V, R) = (S', V', R')
     \<Longrightarrow> length S' + waiting R' \<le> length S + waiting R"
proof (induction outs arbitrary: S V R)
  case Nil
  then show ?case by simp
next
  case (Cons out outs)
  obtain S1 V1 R1 where s: "visit_output g out (S, V, R) = (S1, V1, R1)"
    by (cases "visit_output g out (S, V, R)") auto
  from Cons.prems s have "fold (visit_output g) outs (S1, V1, R1) = (S', V', R')"
    by simp
  from Cons.IH [OF this] visit_output_measure [OF s] show ?case
    by linarith
qed

lemma visit_node_measure:
  "visit_node g a (S, V, R) = (S', V', R')
     \<Longrightarrow> length S' + waiting R' \<le> length S + waiting R"
  by (auto simp: visit_node_def split: option.splits dest: fold_visit_output_measure)

text \<open>
  The \<open>while(true)\<close> loop: \<open>S.shift()\<close>, \<open>L.push(n)\<close>, \<open>delete M[n.id]\<close>, then the
  outputs of \<open>n\<close>. It ends when \<open>S\<close> is empty.
\<close>

function order_loop ::
  "lgraph \<Rightarrow> addr list \<Rightarrow> addr list \<Rightarrow> (int \<times> addr) list \<Rightarrow> int set \<Rightarrow> (int \<times> int) list
     \<Rightarrow> addr list \<times> (int \<times> addr) list" where
  "order_loop g [] L M V R = (L, M)"
| "order_loop g (n # S) L M V R =
     (case visit_node g n (S, V, R) of
        (S', V', R') \<Rightarrow>
          order_loop g S' (L @ [n]) (AList.delete (node_id (heap g n)) M) V' R')"
  by pat_completeness auto
termination
  by (relation "measure (\<lambda>(g, S, L, M, V, R). length S + waiting R)")
     (auto dest!: visit_node_measure [OF sym])

text \<open>
  \<open>for(var i in M)\<close>: the keys that are array indices come first, in ascending order,
  then the other keys in the order they were created.
\<close>

definition is_array_index :: "int \<Rightarrow> bool" where
  "is_array_index k \<longleftrightarrow> 0 \<le> k \<and> k < 4294967295"

definition js_keys_order :: "(int \<times> 'a) list \<Rightarrow> (int \<times> 'a) list" where
  "js_keys_order m =
     sort_key fst (filter (\<lambda>p. is_array_index (fst p)) m)
       @ filter (\<lambda>p. \<not> is_array_index (fst p)) m"

text \<open>The decimal text of a number: the key of a position of an array.\<close>

fun digits :: "nat \<Rightarrow> string" where
  "digits n =
     (if n < 10 then [''0123456789'' ! n]
      else digits (n div 10) @ [''0123456789'' ! (n mod 10)])"

text \<open>
  \<open>for(var i in L) L[i].order = i\<close>: the positions in ascending order. The loop
  variable of \<open>for\<close>-\<open>in\<close> is the key of the position, a string, and this string is what
  \<open>order\<close> holds. The \<open>for\<close>-\<open>in\<close> loops are modelled over own keys: \<open>Object.prototype\<close>
  is taken to have no enumerable property.
\<close>

definition set_order :: "nat \<times> addr \<Rightarrow> (addr \<Rightarrow> node) \<Rightarrow> (addr \<Rightarrow> node)" where
  "set_order p h = h(snd p := (h (snd p))\<lparr>order := Some (digits (fst p))\<rparr>)"

definition assign_order :: "addr list \<Rightarrow> (addr \<Rightarrow> node) \<Rightarrow> (addr \<Rightarrow> node)" where
  "assign_order L h = fold set_order (enumerate 0 L) h"

definition computeExecutionOrder :: "lgraph \<Rightarrow> addr list \<times> lgraph" where
  "computeExecutionOrder g =
     (case fold (seed_node g) (nodes g) ([], [], []) of
        (S, M, R) \<Rightarrow>
          (case order_loop g S [] M {} R of
             (L, M') \<Rightarrow>
               (let L' = L @ map snd (js_keys_order M')
                in (L', g\<lparr>heap := assign_order L' (heap g)\<rparr>))))"

definition updateExecutionOrder :: "lgraph \<Rightarrow> lgraph" where
  "updateExecutionOrder g =
     (case computeExecutionOrder g of (L, g') \<Rightarrow> g'\<lparr>nodes_in_order := Some L\<rparr>)"

subsection \<open>add\<close>

text \<open>
  \<open>add(node, skip_compute_order)\<close>, for a graph with no canvas attached and with none
  of the optional callbacks \<open>onAdded\<close>, \<open>onNodeAdded\<close>, \<open>on_change\<close> set, where
  \<open>setDirtyCanvas\<close> and \<open>change\<close> do nothing; \<open>alignToGrid\<close> moves the node on the
  canvas only. \<open>LiteGraph.MAX_NUMBER_OF_NODES\<close> is not among the source files and is a
  parameter. The result is the value returned (the node, or \<open>undefined\<close>) or the value
  thrown, with the graph at that moment.
\<close>

definition add :: "nat \<Rightarrow> addr \<Rightarrow> bool \<Rightarrow> lgraph \<Rightarrow> (exn + addr option) \<times> lgraph" where
  "add MAX_NUMBER_OF_NODES a skip_compute_order g =
     (if node_id (heap g a) \<noteq> - 1 \<and> nodes_by_id g (node_id (heap g a)) \<noteq> None
      then (Inr None, g)
      else if MAX_NUMBER_OF_NODES \<le> length (nodes g)
      then (Inl (Thrown ''LiteGraph: max number of nodes in a graph reached''), g)
      else
        (let g1 = (if node_id (heap g a) = - 1
                   then g\<lparr>heap := (heap g)(a := (heap g a)\<lparr>node_id := last_node_id g\<rparr>),
                          last_node_id := last_node_id g + 1\<rparr>
                   else g);
             g2 = g1\<lparr>heap := (heap g1)(a := (heap g1 a)\<lparr>has_graph := True\<rparr>)\<rparr>;
             g3 = g2\<lparr>nodes := nodes g2 @ [a],
                     nodes_by_id := (nodes_by_id g2)(node_id (heap g2 a) \<mapsto> a)\<rparr>;
             g4 = (if skip_compute_order then g3 else updateExecutionOrder g3)
         in (Inr (Some a), g4)))"

subsection \<open>remove\<close>

text \<open>\<open>node.inputs[i]\<close> and \<open>node.outputs[i]\<close>: \<open>None\<close> where there is no slot object.\<close>

definition get_input :: "lgraph \<Rightarrow> addr \<Rightarrow> nat \<Rightarrow> input_slot option" where
  "get_input g a i =
     (case inputs (heap g a) of
        None \<Rightarrow> None
      | Some ins \<Rightarrow> if i < length ins then ins ! i else None)"

definition get_output :: "lgraph \<Rightarrow> addr \<Rightarrow> nat \<Rightarrow> output_slot option" where
  "get_output g a i =
     (case outputs (heap g a) of
        None \<Rightarrow> None
      | Some outs \<Rightarrow> if i < length outs then outs ! i else None)"

definition map_at :: "nat \<Rightarrow> ('a \<Rightarrow> 'a) \<Rightarrow> 'a list \<Rightarrow> 'a list" where
  "map_at i f xs = (if i < length xs then xs[i := f (xs ! i)] else xs)"

definition onConnectionChange :: "lgraph \<Rightarrow> lgraph" where
  "onConnectionChange g = updateExecutionOrder g"

text \<open>
  Modelled from the spec: \<open>disconnectInput\<close> and \<open>disconnectOutput\<close> of the node class,
  which is not among the source files. A link is destroyed when either endpoint
  disconnects: it leaves the graph's \<open>links\<close>, the array of its origin's output slot and
  its target's input slot, and the graph is told of the connection change.
\<close>

definition destroy_link :: "int \<Rightarrow> lgraph \<Rightarrow> lgraph" where
  "destroy_link k g =
     (case links g k of
        None \<Rightarrow> g
      | Some l \<Rightarrow>
          (let g1 = (case getNodeById g (origin_id l) of
                       None \<Rightarrow> g
                     | Some ori \<Rightarrow>
                         g\<lparr>heap := (heap g)(ori := (heap g ori)\<lparr>outputs :=
                              map_option (map_at (origin_slot l)
                                (map_option (\<lambda>ou. ou\<lparr>slot_links :=
                                   map_option (removeAll k) (slot_links ou)\<rparr>)))
                                (outputs (heap g ori))\<rparr>)\<rparr>);
               g2 = (case getNodeById g1 (target_id l) of
                       None \<Rightarrow> g1
                     | Some t \<Rightarrow>
                         g1\<lparr>heap := (heap g1)(t := (heap g1 t)\<lparr>inputs :=
                              map_option (map_at (target_slot l)
                                (map_option (\<lambda>i. if slot_link i = Some k
                                                  then i\<lparr>slot_link := None\<rparr> else i)))
                                (inputs (heap g1 t))\<rparr>)\<rparr>)
           in g2\<lparr>links := (links g2)(k := None)\<rparr>))"

definition disconnectInput :: "addr \<Rightarrow> nat \<Rightarrow> lgraph \<Rightarrow> lgraph" where
  "disconnectInput a i g =
     (case get_input g a i of
        None \<Rightarrow> g
      | Some s \<Rightarrow>
          (case slot_link s of
             None \<Rightarrow> g
           | Some k \<Rightarrow>
               (let g1 = g\<lparr>heap := (heap g)(a := (heap g a)\<lparr>inputs :=
                           map_option (map_at i (map_option (\<lambda>s. s\<lparr>slot_link := None\<rparr>)))
                             (inputs (heap g a))\<rparr>)\<rparr>
                in onConnectionChange (destroy_link k g1))))"

definition disconnectOutput :: "addr \<Rightarrow> nat \<Rightarrow> lgraph \<Rightarrow> lgraph" where
  "disconnectOutput a i g =
     (case get_output g a i of
        None \<Rightarrow> g
      | Some ou \<Rightarrow>
          (case slot_links ou of
             None \<Rightarrow> g
           | Some ks \<Rightarrow>
               (let g1 = fold destroy_link ks g;
                    g2 = g1\<lparr>heap := (heap g1)(a := (heap g1 a)\<lparr>outputs :=
                           map_option (map_at i (map_option (\<lambda>ou. ou\<lparr>slot_links := Some []\<rparr>)))
                             (outputs (heap g1 a))\<rparr>)\<rparr>
                in onConnectionChange g2)))"

text \<open>
  The two loops of \<open>remove\<close> over the slot indices. Reading \<open>slot.link\<close> or
  \<open>slot.links\<close> of an entry that is \<open>null\<close> throws a \<open>TypeError\<close>.
\<close>

fun disconnect_inputs :: "addr \<Rightarrow> nat list \<Rightarrow> lgraph \<Rightarrow> exn option \<times> lgraph" where
  "disconnect_inputs a [] g = (None, g)"
| "disconnect_inputs a (i # is) g =
     (case get_input g a i of
        None \<Rightarrow> (Some (TypeError ''slot is null''), g)
      | Some slot \<Rightarrow>
          disconnect_inputs a is (if slot_link slot \<noteq> None then disconnectInput a i g else g))"

fun disconnect_outputs :: "addr \<Rightarrow> nat list \<Rightarrow> lgraph \<Rightarrow> exn option \<times> lgraph" where
  "disconnect_outputs a [] g = (None, g)"
| "disconnect_outputs a (i # is) g =
     (case get_output g a i of
        None \<Rightarrow> (Some (TypeError ''slot is null''), g)
      | Some slot \<Rightarrow>
          disconnect_outputs a is
            (if slot_links slot \<noteq> None \<and> slot_links slot \<noteq> Some []
             then disconnectOutput a i g else g))"

text \<open>
  \<open>remove(node)\<close>, for a graph with no canvas attached and with neither \<open>onRemoved\<close>
  nor \<open>onNodeRemoved\<close> set. The statements are in the order of the source:
  \<open>node.id = -1\<close> comes before \<open>delete this._nodes_by_id[node.id]\<close>.
\<close>

definition remove :: "addr \<Rightarrow> lgraph \<Rightarrow> exn option \<times> lgraph" where
  "remove a g =
     (if nodes_by_id g (node_id (heap g a)) = None then (None, g)
      else if ignore_remove (heap g a) then (None, g)
      else
        (case disconnect_inputs a
                (case inputs (heap g a) of None \<Rightarrow> [] | Some ins \<Rightarrow> [0..<length ins]) g of
           (Some e, g1) \<Rightarrow> (Some e, g1)
         | (None, g1) \<Rightarrow>
             (case disconnect_outputs a
                     (case outputs (heap g1 a) of None \<Rightarrow> [] | Some outs \<Rightarrow> [0..<length outs]) g1 of
                (Some e, g2) \<Rightarrow> (Some e, g2)
              | (None, g2) \<Rightarrow>
                  (let g3 = g2\<lparr>heap := (heap g2)(a := (heap g2 a)\<lparr>node_id := - 1\<rparr>)\<rparr>;
                       g4 = g3\<lparr>heap := (heap g3)(a := (heap g3 a)\<lparr>has_graph := False\<rparr>)\<rparr>;
                       g5 = g4\<lparr>nodes := remove1 a (nodes g4)\<rparr>;
                       g6 = g5\<lparr>nodes_by_id := (nodes_by_id g5)(node_id (heap g5 a) := None)\<rparr>
                   in (None, updateExecutionOrder g6)))))"

subsection \<open>Finding nodes, setInputData\<close>

definition findNodesByType :: "lgraph \<Rightarrow> string \<Rightarrow> addr list" where
  "findNodesByType g ty = filter (\<lambda>a. node_type (heap g a) = ty) (nodes g)"

definition findNodesByTitle :: "lgraph \<Rightarrow> string \<Rightarrow> addr list" where
  "findNodesByTitle g t = filter (\<lambda>a. title (heap g a) = t) (nodes g)"

text \<open>
  The methods of \<open>LGraph.prototype\<close> that take a string and return an array of nodes,
  by property name. \<open>graph.js\<close> defines these two; the comment above
  \<open>findNodesByTitle\<close> still announces \<open>@method findNodesByName\<close>, a name no
  assignment to the prototype defines.
\<close>

definition LGraph_prototype :: "string \<Rightarrow> (lgraph \<Rightarrow> string \<Rightarrow> addr list) option" where
  "LGraph_prototype m =
     map_of [(''findNodesByType'', findNodesByType), (''findNodesByTitle'', findNodesByTitle)] m"

text \<open>
  \<open>LGraphConstant.prototype.setValue\<close> (without the canvas notification); \<open>parseFloat\<close>
  is the built-in, a parameter.
\<close>

definition setValue :: "(string \<Rightarrow> jsval) \<Rightarrow> jsval \<Rightarrow> node \<Rightarrow> node" where
  "setValue parseFloat v n =
     n\<lparr>properties_value := (case v of String s \<Rightarrow> parseFloat s | _ \<Rightarrow> v)\<rparr>"

text \<open>\<open>for(var i in m) m[i].setValue(value)\<close>: a node without the method throws.\<close>

fun setValue_all ::
  "(string \<Rightarrow> jsval) \<Rightarrow> jsval \<Rightarrow> addr list \<Rightarrow> lgraph \<Rightarrow> exn option \<times> lgraph" where
  "setValue_all parseFloat v [] g = (None, g)"
| "setValue_all parseFloat v (a # as) g =
     (if has_setValue (heap g a)
      then setValue_all parseFloat v as
             (g\<lparr>heap := (heap g)(a := setValue parseFloat v (heap g a))\<rparr>)
      else (Some (TypeError ''m[i].setValue is not a function''), g))"

text \<open>
  \<open>setInputData(name, value)\<close> calls \<open>this.findNodesByName(name)\<close>: the property is
  looked up on the prototype, and calling \<open>undefined\<close> throws a \<open>TypeError\<close>.
\<close>

definition setInputData ::
  "(string \<Rightarrow> jsval) \<Rightarrow> string \<Rightarrow> jsval \<Rightarrow> lgraph \<Rightarrow> exn option \<times> lgraph" where
  "setInputData parseFloat name v g =
     (case LGraph_prototype ''findNodesByName'' of
        None \<Rightarrow> (Some (TypeError ''this.findNodesByName is not a function''), g)
      | Some findNodesByName \<Rightarrow> setValue_all parseFloat v (findNodesByName g name) g)"

subsection \<open>Global inputs\<close>













subsection \<open>The execution loop\<close>

text \<open>
  A callback is code of the embedding application: it runs on the graph and either
  returns or throws, leaving the graph as it was at that moment. The callbacks of the
  nodes are found by node and property name (\<open>M[j][eventname]\<close>); those of the graph
  are the optional properties \<open>onExecuteStep\<close>, \<open>onAfterExecute\<close> and \<open>onStopEvent\<close>.
\<close>

type_synonym callback = "lgraph \<Rightarrow> exn option \<times> lgraph"

record callbacks =
  node_callback :: "addr \<Rightarrow> string \<Rightarrow> callback option"
  onExecuteStep :: "callback option"
  onAfterExecute :: "callback option"
  onStopEvent :: "callback option"

definition call_optional :: "callback option \<Rightarrow> callback" where
  "call_optional c g = (case c of None \<Rightarrow> (None, g) | Some f \<Rightarrow> f g)"

text \<open>
  \<open>sendEventToAllNodes(eventname)\<close>: the loop runs over the array \<open>M\<close> as it is when
  the call starts.
\<close>

fun dispatch :: "callbacks \<Rightarrow> string \<Rightarrow> addr list \<Rightarrow> callback" where
  "dispatch H ev [] g = (None, g)"
| "dispatch H ev (a # as) g =
     (case call_optional (node_callback H a ev) g of
        (Some e, g') \<Rightarrow> (Some e, g')
      | (None, g') \<Rightarrow> dispatch H ev as g')"

definition sendEventToAllNodes :: "callbacks \<Rightarrow> string \<Rightarrow> callback" where
  "sendEventToAllNodes H ev g =
     dispatch H ev (case nodes_in_order g of Some M \<Rightarrow> M | None \<Rightarrow> nodes g) g"

definition stop :: "callbacks \<Rightarrow> callback" where
  "stop H g =
     (if status g = STATUS_STOPPED then (None, g)
      else
        (case call_optional (onStopEvent H) (g\<lparr>status := STATUS_STOPPED\<rparr>) of
           (Some e, g1) \<Rightarrow> (Some e, g1)
         | (None, g1) \<Rightarrow> sendEventToAllNodes H ''onStop'' (g1\<lparr>execution_timer_id := None\<rparr>)))"

text \<open>The \<open>for\<close> loop of \<open>runStep\<close>, \<open>num\<close> iterations.\<close>

fun ticks :: "callbacks \<Rightarrow> nat \<Rightarrow> callback" where
  "ticks H 0 g = (None, g)"
| "ticks H (Suc k) g =
     (case sendEventToAllNodes H ''onExecute'' g of
        (Some e, g1) \<Rightarrow> (Some e, g1)
      | (None, g1) \<Rightarrow>
          (case call_optional (onExecuteStep H) (g1\<lparr>fixedtime := fixedtime g1 + fixedtime_lapse g1\<rparr>) of
             (Some e, g2) \<Rightarrow> (Some e, g2)
           | (None, g2) \<Rightarrow> ticks H k g2))"

text \<open>The block under \<open>try\<close>.\<close>

definition try_block :: "callbacks \<Rightarrow> nat \<Rightarrow> callback" where
  "try_block H num g =
     (case ticks H num g of
        (Some e, g1) \<Rightarrow> (Some e, g1)
      | (None, g1) \<Rightarrow>
          (case call_optional (onAfterExecute H) g1 of
             (Some e, g2) \<Rightarrow> (Some e, g2)
           | (None, g2) \<Rightarrow> (None, g2\<lparr>errors_in_execution := Some False\<rparr>)))"

text \<open>The statements after the \<open>try\<close>; \<open>elapsed\<close> is the time the step took.\<close>

definition finish_step :: "real \<Rightarrow> lgraph \<Rightarrow> lgraph" where
  "finish_step elapsed g =
     (let elapsed' = (if elapsed = 0 then 1 else elapsed)
      in g\<lparr>elapsed_time := 0.001 * elapsed',
           globaltime := globaltime g + 0.001 * elapsed',
           iteration := iteration g + 1\<rparr>)"

text \<open>
  \<open>runStep(num)\<close>. \<open>LiteGraph.throw_errors\<close> is a parameter; \<open>t0\<close> and \<open>t1\<close> are the
  two readings of \<open>LiteGraph.getTime()\<close>.
\<close>

definition runStep :: "callbacks \<Rightarrow> bool \<Rightarrow> real \<Rightarrow> real \<Rightarrow> nat \<Rightarrow> callback" where
  "runStep H throw_errors t0 t1 num g =
     (let num' = (if num = 0 then 1 else num);
          g0 = g\<lparr>globaltime := 0.001 * (t0 - starttime g)\<rparr>
      in case try_block H num' g0 of
           (None, g1) \<Rightarrow> (None, finish_step (t1 - t0) g1)
         | (Some err, g1) \<Rightarrow>
             (let g2 = g1\<lparr>errors_in_execution := Some True\<rparr>
              in if throw_errors then (Some err, g2)
                 else (case stop H g2 of
                         (Some e, g3) \<Rightarrow> (Some e, g3)
                       | (None, g3) \<Rightarrow> (None, finish_step (t1 - t0) g3))))"

text \<open>
  For the statements on the execution loop: the structural data of a graph, callbacks
  that leave a part \<open>\<pi>\<close> of the graph as it is, and callbacks that return (they never
  throw). \<open>stop\<close> runs the callback \<open>onStopEvent\<close> and the \<open>onStop\<close> callbacks of the
  nodes.
\<close>

definition "structure" ::
  "lgraph \<Rightarrow> (addr \<Rightarrow> node) \<times> addr list \<times> (int \<rightharpoonup> addr) \<times> addr list option \<times> (int \<rightharpoonup> link)" where
  "structure g = (heap g, nodes g, nodes_by_id g, nodes_in_order g, links g)"

definition keeps :: "(lgraph \<Rightarrow> 'a) \<Rightarrow> callback option \<Rightarrow> bool" where
  "keeps \<pi> c \<longleftrightarrow> (\<forall>g. \<pi> (snd (call_optional c g)) = \<pi> g)"

definition stop_callbacks_keep :: "callbacks \<Rightarrow> (lgraph \<Rightarrow> 'a) \<Rightarrow> bool" where
  "stop_callbacks_keep H \<pi> \<longleftrightarrow>
     keeps \<pi> (onStopEvent H) \<and> (\<forall>a. keeps \<pi> (node_callback H a ''onStop''))"

definition returns :: "callback option \<Rightarrow> bool" where
  "returns c \<longleftrightarrow> (\<forall>g. fst (call_optional c g) = None)"

definition stop_callbacks_return :: "callbacks \<Rightarrow> bool" where
  "stop_callbacks_return H \<longleftrightarrow>
     returns (onStopEvent H) \<and> (\<forall>a. returns (node_callback H a ''onStop''))"

section \<open>The 3-input composer node: \<open>shader_nodes/3param_node.js\<close>\<close>

text \<open>
  The fields of an \<open>LGraph3ParamNode\<close> that \<open>processInputCode\<close> reads and writes:
  \<open>codes0\<close> is \<open>this.codes[0]\<close>, the code the node publishes on its output;
  \<open>output_types\<close> and \<open>T_types\<close> are the key lists of the two type objects.
\<close>

record LGraph3ParamNode =
  this_id :: int
  this_order :: "nat option"
  code_name :: string
  shader_piece :: P3ParamFunc
  codes0 :: "ShaderCode option"
  output_types :: "string list option"
  T_types :: "string list option"

text \<open>The text that string concatenation prints for an integer.\<close>

definition js_int_str :: "int \<Rightarrow> string" where
  "js_int_str i = (if i < 0 then CHR ''-'' # digits (nat (- i)) else digits (nat i))"

text \<open>
  Modelled from the spec: \<open>merge\<close> and \<open>getOutputVar\<close> of the code objects, which are
  not among the source files. \<open>merge\<close> unites the include mappings (the last writer of
  a key wins) and concatenates the two bodies, the one of lower \<open>order\<close> first.
\<close>

definition merge_piece :: "bool \<Rightarrow> CodePiece \<Rightarrow> CodePiece \<Rightarrow> CodePiece" where
  "merge_piece other_first this other =
     \<lparr>body = (if other_first then body other @ body this else body this @ body other),
      piece_includes = piece_includes this ++ piece_includes other\<rparr>"

definition merge :: "ShaderCode \<Rightarrow> ShaderCode \<Rightarrow> ShaderCode" where
  "merge this other =
     (let other_first = (case (code_order other, code_order this) of
                           (Some i, Some j) \<Rightarrow> i < j
                         | _ \<Rightarrow> False)
      in this\<lparr>vertex := merge_piece other_first (vertex this) (vertex other),
              fragment := merge_piece other_first (fragment this) (fragment other)\<rparr>)"

definition getOutputVar :: "ShaderCode \<Rightarrow> string" where
  "getOutputVar c = out_var c"

text \<open>\<open>getOutputType\<close>: \<open>Object.keys(obj)[0]\<close>, which throws when \<open>obj\<close> is undefined.\<close>

definition getOutputType :: "LGraph3ParamNode \<Rightarrow> exn + string option" where
  "getOutputType this =
     (case (case output_types this of Some ks \<Rightarrow> Some ks | None \<Rightarrow> T_types this) of
        None \<Rightarrow> Inl (TypeError ''cannot convert undefined or null to object'')
      | Some [] \<Rightarrow> Inr None
      | Some (k # ks) \<Rightarrow> Inr (Some k))"

definition getScope :: "CodePiece_consts \<Rightarrow> int" where
  "getScope K = FRAGMENT K"

text \<open>
  \<open>processInputCode\<close>. The methods \<open>getInputCode\<close> (the code of the node upstream of a
  slot, \<open>None\<close> when there is none) and \<open>onGetNullCode\<close> (the fallback a node supplies
  for a slot, \<open>None\<close> when it supplies none) and the constant \<open>LiteGraph.EMPTY_CODE\<close>
  are not among the source files: they are parameters. The function returns no value;
  its local \<open>output_code\<close> is written to \<open>this.codes[0]\<close> in the branch that builds the
  code and nowhere else.
\<close>

definition processInputCode ::
  "CodePiece_consts \<Rightarrow> ShaderCode \<Rightarrow> (nat \<Rightarrow> ShaderCode option) \<Rightarrow> (nat \<Rightarrow> ShaderCode option)
     \<Rightarrow> LGraph3ParamNode \<Rightarrow> exn option \<times> LGraph3ParamNode" where
  "processInputCode K EMPTY_CODE getInputCode onGetNullCode this =
     (let output_code = EMPTY_CODE;
          code_A = (case getInputCode 0 of Some c \<Rightarrow> Some c | None \<Rightarrow> onGetNullCode 0);
          code_B = (case getInputCode 1 of Some c \<Rightarrow> Some c | None \<Rightarrow> onGetNullCode 1);
          code_C = (case getInputCode 2 of Some c \<Rightarrow> Some c | None \<Rightarrow> onGetNullCode 2)
      in case (code_A, code_B, code_C) of
           (Some cA, Some cB, Some cC) \<Rightarrow>
             (case getOutputType this of
                Inl e \<Rightarrow> (Some e, this)
              | Inr out_type \<Rightarrow>
                  (let output_code = getCode K (shader_piece this)
                                       (code_name this @ ''_'' @ js_int_str (this_id this))
                                       (getOutputVar cA) (getOutputVar cB) (getOutputVar cC)
                                       (getScope K) out_type;
                       output_code = output_code\<lparr>code_order := this_order this\<rparr>;
                       output_code = merge output_code cC;
                       output_code = merge output_code cA;
                       output_code = merge output_code cB
                   in (None, this\<lparr>codes0 := Some output_code\<rparr>)))
         | _ \<Rightarrow> (None, this))"

section \<open>Sequences of calls\<close>

text \<open>
  A caller's sequence of \<open>add\<close> and \<open>remove\<close> calls on nodes of the store. A call that
  throws leaves the graph as it is at the throw, and the caller goes on. \<open>run\<close> gives
  the ids under which the calls registered their nodes, in order, and the final graph.
\<close>

datatype op = Add addr bool | Remove addr

fun op_node :: "op \<Rightarrow> addr" where
  "op_node (Add a skip) = a"
| "op_node (Remove a) = a"

definition apply_op :: "nat \<Rightarrow> op \<Rightarrow> lgraph \<Rightarrow> int option \<times> lgraph" where
  "apply_op MAX_NUMBER_OF_NODES op g =
     (case op of
        Add a skip \<Rightarrow>
          (case add MAX_NUMBER_OF_NODES a skip g of
             (Inr (Some b), g') \<Rightarrow> (Some (node_id (heap g' b)), g')
           | (_, g') \<Rightarrow> (None, g'))
      | Remove a \<Rightarrow> (None, snd (remove a g)))"

fun run :: "nat \<Rightarrow> op list \<Rightarrow> lgraph \<Rightarrow> int list \<times> lgraph" where
  "run MAX_NUMBER_OF_NODES [] g = ([], g)"
| "run MAX_NUMBER_OF_NODES (op # ops) g =
     (case apply_op MAX_NUMBER_OF_NODES op g of
        (r, g') \<Rightarrow>
          (case run MAX_NUMBER_OF_NODES ops g' of
             (ids, gf) \<Rightarrow> ((case r of None \<Rightarrow> [] | Some i \<Rightarrow> [i]) @ ids, gf)))"

section \<open>Well-formed graphs\<close>

abbreviation nid :: "lgraph \<Rightarrow> addr \<Rightarrow> int" where
  "nid g a \<equiv> node_id (heap g a)"

text \<open>
  What \<open>computeExecutionOrder\<close> needs of the nodes to list each of them once: the array
  \<open>_nodes\<close> holds no node twice, the ids of its nodes are unique, and a node that
  \<open>_nodes_by_id\<close> returns and that bears the id of a listed node is that node (the map
  may still hold nodes that have left the graph).
\<close>

definition coverage_wf :: "lgraph \<Rightarrow> bool" where
  "coverage_wf g \<longleftrightarrow>
     distinct (nodes g) \<and> inj_on (nid g) (set (nodes g))
     \<and> (\<forall>k t. nodes_by_id g k = Some t \<longrightarrow> (\<forall>b\<in>set (nodes g). nid g b = nid g t \<longrightarrow> b = t))"

text \<open>The link ids a node lists in its output slots, in the order the loop reads them.\<close>

definition out_link_list :: "node \<Rightarrow> int list" where
  "out_link_list n =
     (case outputs n of
        None \<Rightarrow> []
      | Some outs \<Rightarrow>
          concat (map (\<lambda>out. case out of
                                None \<Rightarrow> []
                              | Some ou \<Rightarrow> (case slot_links ou of None \<Rightarrow> [] | Some ks \<Rightarrow> ks))
                      outs))"

text \<open>
  The invariants of the data model, which the order of an acyclic graph rests on: the
  nodes are well-formed and found under their ids; a link is stored under its id, its
  origin is a node that lists it in an output slot, and its target, if the graph finds
  a node under \<open>target_id\<close>, is a node of the graph whose input slot \<open>target_slot\<close> holds
  it (the target may be missing); a link an input slot holds is a link of the graph that
  targets this slot; a link an output slot lists, if the graph has it, starts at this
  node.
\<close>

definition topo_wf :: "lgraph \<Rightarrow> bool" where
  "topo_wf g \<longleftrightarrow>
     coverage_wf g
     \<and> (\<forall>a\<in>set (nodes g). nodes_by_id g (nid g a) = Some a)
     \<and> (\<forall>k l. links g k = Some l \<longrightarrow>
           link_id l = k
           \<and> (\<exists>ori\<in>set (nodes g). nid g ori = origin_id l \<and> k \<in> set (out_link_list (heap g ori)))
           \<and> (\<forall>t. nodes_by_id g (target_id l) = Some t \<longrightarrow>
                 t \<in> set (nodes g) \<and> nid g t = target_id l
                 \<and> (\<exists>s. get_input g t (target_slot l) = Some s \<and> slot_link s = Some k)))
     \<and> (\<forall>t\<in>set (nodes g). \<forall>j s k. get_input g t j = Some s \<and> slot_link s = Some k \<longrightarrow>
           (\<exists>l. links g k = Some l \<and> target_id l = nid g t \<and> target_slot l = j))
     \<and> (\<forall>ori\<in>set (nodes g). \<forall>k\<in>set (out_link_list (heap g ori)). \<forall>l.
           links g k = Some l \<longrightarrow> origin_id l = nid g ori)"

text \<open>The edges of the graph: a link leads from the first node to the second.\<close>

definition node_edges :: "lgraph \<Rightarrow> (addr \<times> addr) set" where
  "node_edges g =
     {(ori, t). ori \<in> set (nodes g) \<and> t \<in> set (nodes g)
        \<and> (\<exists>k l. links g k = Some l \<and> origin_id l = nid g ori \<and> target_id l = nid g t)}"

text \<open>
  Comparing the \<open>order\<close> of two nodes. The values are strings, and \<open>a.order < b.order\<close>
  compares two strings by their code units, the first difference deciding; a comparison
  with \<open>undefined\<close> is false.
\<close>

fun js_string_less :: "string \<Rightarrow> string \<Rightarrow> bool" where
  "js_string_less s [] = False"
| "js_string_less [] (d # t) = True"
| "js_string_less (c # s) (d # t) =
     ((of_char c :: nat) < of_char d \<or> (c = d \<and> js_string_less s t))"

definition order_less :: "lgraph \<Rightarrow> addr \<Rightarrow> addr \<Rightarrow> bool" where
  "order_less g a b =
     (case (order (heap g a), order (heap g b)) of
        (Some s, Some t) \<Rightarrow> js_string_less s t
      | _ \<Rightarrow> False)"

text \<open>
  The number that a decimal text denotes, and the number that the \<open>order\<close> of a node
  denotes. The first node has an \<open>order\<close> that denotes a number, and the second one that
  denotes a greater number.
\<close>

definition digit_value :: "char \<Rightarrow> nat option" where
  "digit_value c = map_of (zip ''0123456789'' [0, 1, 2, 3, 4, 5, 6, 7, 8, 9]) c"

fun decimal_acc :: "nat \<Rightarrow> string \<Rightarrow> nat option" where
  "decimal_acc v [] = Some v"
| "decimal_acc v (c # s) =
     (case digit_value c of None \<Rightarrow> None | Some d \<Rightarrow> decimal_acc (10 * v + d) s)"

definition decimal :: "string \<Rightarrow> nat option" where
  "decimal s = (if s = [] then None else decimal_acc 0 s)"

definition order_number :: "lgraph \<Rightarrow> addr \<Rightarrow> nat option" where
  "order_number g a = (case order (heap g a) of None \<Rightarrow> None | Some s \<Rightarrow> decimal s)"

definition order_before :: "lgraph \<Rightarrow> addr \<Rightarrow> addr \<Rightarrow> bool" where
  "order_before g a b =
     (case (order_number g a, order_number g b) of
        (Some i, Some j) \<Rightarrow> i < j
      | _ \<Rightarrow> False)"

section \<open>Relations and invariants of the proofs\<close>

text \<open>
  Two graphs that differ at most in the \<open>order\<close> of their nodes and outside the listed
  fields; two graphs with the same nodes under the same ids.
\<close>

definition same_but_order :: "lgraph \<Rightarrow> lgraph \<Rightarrow> bool" where
  "same_but_order g g' \<longleftrightarrow>
     nodes g' = nodes g \<and> nodes_by_id g' = nodes_by_id g \<and> last_node_id g' = last_node_id g
     \<and> links g' = links g
     \<and> (\<forall>a. node_id (heap g' a) = node_id (heap g a) \<and> inputs (heap g' a) = inputs (heap g a)
            \<and> outputs (heap g' a) = outputs (heap g a)
            \<and> ignore_remove (heap g' a) = ignore_remove (heap g a))"

definition same_ids :: "lgraph \<Rightarrow> lgraph \<Rightarrow> bool" where
  "same_ids g g' \<longleftrightarrow>
     nodes g' = nodes g \<and> nodes_by_id g' = nodes_by_id g \<and> last_node_id g' = last_node_id g
     \<and> (\<forall>a. node_id (heap g' a) = node_id (heap g a))"

text \<open>
  The invariant of the id allocation, over the nodes \<open>A\<close> the caller uses: the id map
  holds nodes of \<open>A\<close>, a node of \<open>A\<close> with an id is registered under it, below the
  counter, and the listed nodes have ids.
\<close>

definition ids_inv :: "addr set \<Rightarrow> lgraph \<Rightarrow> bool" where
  "ids_inv A g \<longleftrightarrow>
     0 \<le> last_node_id g \<and> distinct (nodes g) \<and> set (nodes g) \<subseteq> A
     \<and> nodes_by_id g (- 1) = None \<and> (\<forall>k t. nodes_by_id g k = Some t \<longrightarrow> t \<in> A)
     \<and> (\<forall>a\<in>A. node_id (heap g a) \<noteq> - 1 \<longrightarrow>
           nodes_by_id g (node_id (heap g a)) = Some a \<and> node_id (heap g a) < last_node_id g)
     \<and> (\<forall>a\<in>set (nodes g). node_id (heap g a) \<noteq> - 1)"

text \<open>
  The invariants of the loop of \<open>computeExecutionOrder\<close>, for the nodes \<open>D\<close> already in
  \<open>L\<close>: the nodes of \<open>S\<close> are listed nodes, each once and none of them in \<open>D\<close>, no node of
  \<open>D\<close> or \<open>S\<close> waits for a link, and the keys of \<open>remaining_links\<close> are ids of listed
  nodes; \<open>M\<close> holds exactly the listed nodes that are not in \<open>L\<close>, under their ids.
\<close>

definition cov_inv :: "lgraph \<Rightarrow> addr set \<Rightarrow> addr list \<Rightarrow> (int \<times> int) list \<Rightarrow> bool" where
  "cov_inv g D S R \<longleftrightarrow>
     distinct S \<and> set S \<subseteq> set (nodes g) \<and> set S \<inter> D = {}
     \<and> (\<forall>a\<in>D \<union> set S. \<forall>c. map_of R (nid g a) = Some c \<longrightarrow> c \<le> 0)
     \<and> fst ` set R \<subseteq> nid g ` set (nodes g)"

definition pending_inv :: "lgraph \<Rightarrow> addr list \<Rightarrow> (int \<times> addr) list \<Rightarrow> bool" where
  "pending_inv g L M \<longleftrightarrow>
     distinct (map fst M)
     \<and> (\<forall>k a. map_of M k = Some a \<longleftrightarrow> a \<in> set (nodes g) \<and> a \<notin> set L \<and> nid g a = k)"

text \<open>
  For the order: the links that target a node, the links that leave a set of nodes, and
  the invariant while the links of a node are visited: \<open>remaining_links\<close> counts the
  links of each node not visited yet, a node is in \<open>S\<close> or \<open>L\<close> exactly when all its
  links are visited, and visited links leave nodes of \<open>L\<close>. In \<open>L\<close>, the links of a node
  leave nodes before it.
\<close>

definition in_links :: "lgraph \<Rightarrow> addr \<Rightarrow> int set" where
  "in_links g t = {k. \<exists>l. links g k = Some l \<and> target_id l = nid g t}"

definition out_of :: "lgraph \<Rightarrow> addr set \<Rightarrow> int set" where
  "out_of g D = {k. \<exists>l ori. links g k = Some l \<and> ori \<in> D \<and> origin_id l = nid g ori}"

definition vis_inv :: "lgraph \<Rightarrow> addr set \<Rightarrow> addr list \<Rightarrow> int set \<Rightarrow> (int \<times> int) list \<Rightarrow> bool" where
  "vis_inv g D S V R \<longleftrightarrow>
     (\<forall>t\<in>set (nodes g). map_of R (nid g t)
          = (if count_inputs (heap g t) = 0 then None
             else Some (int (card (in_links g t - V)))))
     \<and> (\<forall>t\<in>set (nodes g). t \<in> set S \<union> D \<longleftrightarrow> in_links g t \<subseteq> V)
     \<and> V \<subseteq> out_of g D"

definition topo_list :: "lgraph \<Rightarrow> addr list \<Rightarrow> bool" where
  "topo_list g L \<longleftrightarrow> (\<forall>i<length L. in_links g (L ! i) \<subseteq> out_of g (set (take i L)))"

section \<open>Example objects\<close>

text \<open>A node as its constructor leaves it: detached, with \<open>id = -1\<close>.\<close>

definition detached :: node where
  "detached = \<lparr>node_id = - 1, title = [], node_type = [], inputs = None, outputs = None,
     order = None, ignore_remove = False, has_graph = False, has_setValue = False,
     properties_value = Undefined\<rparr>"

text \<open>A fresh graph after \<open>add\<close> of the node at address 0.\<close>

definition one_node_graph :: lgraph where
  "one_node_graph = snd (add 1 0 False (new_LGraph (\<lambda>a. detached)))"


text \<open>The node at address 0 has an \<open>onExecute\<close> that throws; no other callback is set.\<close>

definition failing_callbacks :: callbacks where
  "failing_callbacks =
     \<lparr>node_callback = (\<lambda>a ev. if a = 0 \<and> ev = ''onExecute''
                               then Some (\<lambda>g. (Some (Thrown ''boom''), g)) else None),
      onExecuteStep = None, onAfterExecute = None, onStopEvent = None\<rparr>"

text \<open>The same, with an \<open>onStopEvent\<close> that throws as well.\<close>

definition throwing_stop_callbacks :: callbacks where
  "throwing_stop_callbacks =
     failing_callbacks\<lparr>onStopEvent := Some (\<lambda>g. (Some (Thrown ''late''), g))\<rparr>"

text \<open>A graph with one node that \<open>start\<close> has set running, under the timer 7.\<close>

definition running_graph :: lgraph where
  "running_graph = one_node_graph\<lparr>status := STATUS_RUNNING, execution_timer_id := Some 7\<rparr>"

text \<open>
  A \<open>mix\<close> node that has published a code before, code objects for its inputs, and the
  constants of the code library.
\<close>

definition shader_consts :: CodePiece_consts where
  "shader_consts = \<lparr>VERTEX = 1, FRAGMENT = 2, BOTH = 3\<rparr>"

definition empty_code :: ShaderCode where
  "empty_code = new_ShaderCode new_CodePiece new_CodePiece []"

definition var_code :: "string \<Rightarrow> nat \<Rightarrow> ShaderCode" where
  "var_code v k =
     (new_ShaderCode new_CodePiece
        (setBody (''float '' @ v @ '' = 1.0;'' @ [CHR 0x0A]) new_CodePiece) v)
       \<lparr>code_order := Some k\<rparr>"

definition mix_node :: LGraph3ParamNode where
  "mix_node = \<lparr>this_id = 3, this_order = Some 3, code_name = ''mix'',
     shader_piece = new_P3ParamFunc None ''mix'', codes0 = Some (var_code ''mix_3'' 3),
     output_types = None, T_types = Some [''float'']\<rparr>"

definition two_inputs :: "nat \<Rightarrow> ShaderCode option" where
  "two_inputs i = (if i = 0 then Some (var_code ''float_0'' 0)
                   else if i = 1 then Some (var_code ''float_1'' 1) else None)"

definition three_inputs :: "nat \<Rightarrow> ShaderCode option" where
  "three_inputs i = (if i = 0 then Some (var_code ''float_0'' 0)
                   else if i = 1 then Some (var_code ''float_1'' 1)
                   else Some (var_code ''float_2'' 2))"

text \<open>Calls on detached nodes, and a store whose node at address 0 brings the id 1.\<close>

definition example_ops :: "op list" where
  "example_ops = [Add 0 False, Add 2 False, Remove 0, Add 0 False]"

definition preassigned :: "addr \<Rightarrow> node" where
  "preassigned = (\<lambda>a. detached)(0 := detached\<lparr>node_id := 1\<rparr>)"

text \<open>
  The same store, where the node at address 0 also has an input slot that holds a link;
  and the graph after \<open>add\<close> of this node and of two detached nodes.
\<close>

definition preassigned_connected :: "addr \<Rightarrow> node" where
  "preassigned_connected =
     (\<lambda>a. detached)(0 := detached\<lparr>node_id := 1, inputs := Some [Some \<lparr>slot_link = Some 0\<rparr>]\<rparr>)"

definition shared_id_graph :: lgraph where
  "shared_id_graph =
     snd (run 10 [Add 0 False, Add 2 False, Add 3 False] (new_LGraph preassigned_connected))"

text \<open>
  Graphs with links: two nodes in a cycle (node 0 feeds node 1, node 1 feeds node 0), and
  two nodes without inputs that feed the two inputs of a third.
\<close>

definition mk_node :: "int \<Rightarrow> int option list \<Rightarrow> int list list \<Rightarrow> node" where
  "mk_node i ins outs =
     detached\<lparr>node_id := i, inputs := Some (map (\<lambda>l. Some \<lparr>slot_link = l\<rparr>) ins),
       outputs := Some (map (\<lambda>ks. Some \<lparr>slot_links = Some ks\<rparr>) outs), has_graph := True\<rparr>"

definition mk_link :: "int \<Rightarrow> int \<Rightarrow> nat \<Rightarrow> int \<Rightarrow> nat \<Rightarrow> link" where
  "mk_link k a i b j = \<lparr>link_id = k, origin_id = a, origin_slot = i, target_id = b, target_slot = j\<rparr>"

definition two_cycle :: lgraph where
  "two_cycle =
     (new_LGraph ((\<lambda>a. detached)(0 := mk_node 0 [Some 1] [[0]], 1 := mk_node 1 [Some 0] [[1]])))
       \<lparr>nodes := [0, 1], nodes_by_id := [0 \<mapsto> 0, 1 \<mapsto> 1], last_node_id := 2,
        links := [0 \<mapsto> mk_link 0 0 0 1 0, 1 \<mapsto> mk_link 1 1 0 0 0], last_link_id := 2\<rparr>"

definition fan_in :: lgraph where
  "fan_in =
     (new_LGraph ((\<lambda>a. detached)(0 := mk_node 0 [] [[0]], 1 := mk_node 1 [] [[1]],
                                   2 := mk_node 2 [Some 0, Some 1] [[]])))
       \<lparr>nodes := [0, 1, 2], nodes_by_id := [0 \<mapsto> 0, 1 \<mapsto> 1, 2 \<mapsto> 2], last_node_id := 3,
        links := [0 \<mapsto> mk_link 0 0 0 2 0, 1 \<mapsto> mk_link 1 1 0 2 1], last_link_id := 2\<rparr>"

text \<open>Eleven nodes, of which node 9 feeds node 10.\<close>

definition eleven :: lgraph where
  "eleven =
     (new_LGraph (\<lambda>a. if a = 9 then mk_node 9 [] [[0]]
                       else if a = 10 then mk_node 10 [Some 0] [[]]
                       else mk_node (int a) [] [[]]))
       \<lparr>nodes := [0, 1, 2, 3, 4, 5, 6, 7, 8, 9, 10],
        nodes_by_id := (\<lambda>k. if 0 \<le> k \<and> k \<le> 10 then Some (nat k) else None),
        last_node_id := 11, links := [0 \<mapsto> mk_link 0 9 0 10 0], last_link_id := 1\<rparr>"

text \<open>
  Node 1 waits for a link from a node with id 7 that the graph does not have, and feeds
  node 0.
\<close>

definition dangling :: lgraph where
  "dangling =
     (new_LGraph ((\<lambda>a. detached)(0 := mk_node 0 [Some 1] [[]], 1 := mk_node 1 [Some 0] [[1]])))
       \<lparr>nodes := [0, 1], nodes_by_id := [0 \<mapsto> 0, 1 \<mapsto> 1], last_node_id := 8,
        links := [0 \<mapsto> mk_link 0 7 0 1 0, 1 \<mapsto> mk_link 1 1 0 0 0], last_link_id := 2\<rparr>"

section \<open>Theorems\<close>

subsection \<open>The bodies of getCode\<close>

text \<open>
  C9. For \<open>getCode(out_var, a, b, c, scope, out_type)\<close> of the 3-parameter composer:
  the vertex body is non-empty exactly when \<open>scope\<close> is \<open>VERTEX\<close> or \<open>BOTH\<close>, the
  fragment body is non-empty exactly when \<open>scope\<close> is \<open>FRAGMENT\<close> or \<open>BOTH\<close>, and an
  emitted body is exactly the text \<open><type> <out_var> = <name>(<a>,<b>,<c>);\<close> followed
  by a newline, where \<open><type>\<close> is \<open>out_type\<close> when it is provided (a non-empty string,
  the test \<open>out_type || this.type\<close> makes) and the composer's declared type otherwise
  (printed as \<open>undefined\<close> when the composer declares none).
\<close>

theorem getCode_bodies:
  fixes K :: CodePiece_consts and this :: P3ParamFunc
  defines "ty out_type \<equiv>
     (case out_type of
        Some (x # xs) \<Rightarrow> x # xs
      | _ \<Rightarrow> (case func_type this of Some d \<Rightarrow> d | None \<Rightarrow> ''undefined''))"
  defines "stmt ov a b c out_type \<equiv>
     ty out_type @ '' '' @ ov @ '' = '' @ func_name this @ ''('' @ a @ '','' @ b @ '','' @ c
       @ '');'' @ [CHR 0x0A]"
  shows "(body (vertex (getCode K this ov a b c scope out_type)) \<noteq> []
            \<longleftrightarrow> scope = VERTEX K \<or> scope = BOTH K)
       \<and> (body (fragment (getCode K this ov a b c scope out_type)) \<noteq> []
            \<longleftrightarrow> scope = FRAGMENT K \<or> scope = BOTH K)
       \<and> (body (vertex (getCode K this ov a b c scope out_type))
            = (if scope = VERTEX K \<or> scope = BOTH K then stmt ov a b c out_type else []))
       \<and> (body (fragment (getCode K this ov a b c scope out_type))
            = (if scope = FRAGMENT K \<or> scope = BOTH K then stmt ov a b c out_type else []))
       \<and> out_var (getCode K this ov a b c scope out_type) = ov"
proof -
  have t: "js_str (js_or out_type (func_type this)) = ty out_type"
    by (simp add: js_str_def js_or_def ty_def split: option.splits list.splits)
  have s: "assignment_code this ov a b c out_type = stmt ov a b c out_type"
    by (simp add: assignment_code_def stmt_def t)
  have ne: "stmt ov a b c out_type \<noteq> []"
    by (simp add: stmt_def)
  show ?thesis
    by (simp add: getCode_def getVertexCode_def getFragmentCode_def setBody_def
        setIncludes_def new_CodePiece_def new_ShaderCode_def s ne Let_def)
qed

text \<open>The \<open>distance\<close> entry of the library, asked for the fragment stage.\<close>

lemma getCode_example:
  "body (fragment (getCode shader_consts (new_P3ParamFunc (Some ''float'') ''distance'')
       ''d'' ''a'' ''b'' ''c'' (FRAGMENT shader_consts) None))
     = ''float d = distance(a,b,c);'' @ [CHR 0x0A]
   \<and> body (vertex (getCode shader_consts (new_P3ParamFunc (Some ''float'') ''distance'')
       ''d'' ''a'' ''b'' ''c'' (FRAGMENT shader_consts) None)) = []"
  by (simp add: getCode_def getVertexCode_def getFragmentCode_def assignment_code_def
      js_or_def js_str_def setBody_def setIncludes_def new_CodePiece_def new_ShaderCode_def
      new_P3ParamFunc_def shader_consts_def)

subsection \<open>Evaluation of the examples\<close>

lemmas order_defs = computeExecutionOrder_def updateExecutionOrder_def seed_node_def
  count_inputs_def connected_def visit_node_def visit_output_def visit_link_def getNodeById_def
  js_keys_order_def assign_order_def set_order_def is_array_index_def Let_def enumerate_eq_zip

lemmas graph_defs = new_LGraph_def detached_def mk_node_def mk_link_def

lemma one_node_graph_eq:
  "nodes one_node_graph = [0] \<and> nodes_by_id one_node_graph = [0 \<mapsto> 0]
   \<and> node_id (heap one_node_graph 0) = 0
   \<and> (\<forall>a. a \<noteq> 0 \<longrightarrow> node_id (heap one_node_graph a) = - 1)
   \<and> nodes_in_order one_node_graph = Some [0]
   \<and> inputs (heap one_node_graph 0) = None \<and> outputs (heap one_node_graph 0) = None
   \<and> \<not> ignore_remove (heap one_node_graph 0)"
  by (simp add: one_node_graph_def add_def new_LGraph_def detached_def order_defs)

subsection \<open>computeExecutionOrder lists every node once\<close>

lemma visit_link_cov:
  assumes wf: "coverage_wf g" and D: "D \<subseteq> set (nodes g)" and inv: "cov_inv g D S R"
    and v: "visit_link g k (S, V, R) = (S', V', R')"
  shows "cov_inv g D S' R'"
proof (cases "\<exists>l t c. links g k = Some l \<and> link_id l \<notin> V \<and> getNodeById g (target_id l) = Some t
    \<and> map_of R (nid g t) = Some c")
  case False
  with v have "S' = S \<and> R' = R"
    by (auto simp: visit_link_def split: option.splits if_splits)
  with inv show ?thesis by simp
next
  case True
  then obtain l t c where l: "links g k = Some l" "link_id l \<notin> V"
    and t: "getNodeById g (target_id l) = Some t" and c: "map_of R (nid g t) = Some c"
    by blast
  from v l t c have S': "S' = (if c - 1 = 0 then S @ [t] else S)"
    and R': "R' = AList.update (nid g t) (c - 1) R"
    by (simp_all add: visit_link_def)
  from inv have dS: "distinct S" and sS: "set S \<subseteq> set (nodes g)" and dj: "set S \<inter> D = {}"
    and neg: "\<And>a c. a \<in> D \<union> set S \<Longrightarrow> map_of R (nid g a) = Some c \<Longrightarrow> c \<le> 0"
    and keys: "fst ` set R \<subseteq> nid g ` set (nodes g)"
    unfolding cov_inv_def by blast+
  from c have "nid g t \<in> fst ` set R"
    by (meson domI domIff map_of_eq_None_iff)
  with keys obtain b where b: "b \<in> set (nodes g)" "nid g b = nid g t"
    by auto
  with wf t have "b = t"
    unfolding coverage_wf_def getNodeById_def by blast
  with b have tN: "t \<in> set (nodes g)" by simp
  have keys': "fst ` set R' \<subseteq> nid g ` set (nodes g)"
    using keys tN by (auto simp: R' dom_update)
  have mR': "map_of R' = (map_of R)(nid g t \<mapsto> c - 1)"
    by (simp add: R' update_conv')
  have other: "map_of R' (nid g a) = map_of R (nid g a)" if "a \<in> set (nodes g)" "a \<noteq> t" for a
  proof -
    from wf that tN have "nid g a \<noteq> nid g t"
      unfolding coverage_wf_def inj_on_def by blast
    then show ?thesis by (simp add: mR')
  qed
  show ?thesis
  proof (cases "c = 1")
    case True
    with neg [of t c] c have tn: "t \<notin> D \<union> set S"
      by auto
    have "\<forall>a\<in>D \<union> set (S @ [t]). \<forall>c'. map_of R' (nid g a) = Some c' \<longrightarrow> c' \<le> 0"
    proof (intro ballI allI impI)
      fix a c'
      assume a: "a \<in> D \<union> set (S @ [t])" and c': "map_of R' (nid g a) = Some c'"
      show "c' \<le> 0"
      proof (cases "a = t")
        case True
        with c' mR' \<open>c = 1\<close> show ?thesis by simp
      next
        case False
        with a D sS have "a \<in> set (nodes g)" "a \<in> D \<union> set S" by auto
        with other [OF this(1) False] c' neg [of a c'] show ?thesis by simp
      qed
    qed
    with True tn dS sS dj tN keys' show ?thesis
      unfolding cov_inv_def S' by auto
  next
    case False
    have "\<forall>a\<in>D \<union> set S. \<forall>c'. map_of R' (nid g a) = Some c' \<longrightarrow> c' \<le> 0"
    proof (intro ballI allI impI)
      fix a c'
      assume a: "a \<in> D \<union> set S" and c': "map_of R' (nid g a) = Some c'"
      show "c' \<le> 0"
      proof (cases "a = t")
        case True
        with a c neg [of t c] have "c \<le> 0" by simp
        with True c' mR' show ?thesis by simp
      next
        case False
        with a D sS have "a \<in> set (nodes g)" by auto
        with other [OF this False] c' neg [OF a] show ?thesis by simp
      qed
    qed
    with False dS sS dj keys' show ?thesis
      unfolding cov_inv_def S' by auto
  qed
qed

lemma fold_visit_link_cov:
  assumes "coverage_wf g" and "D \<subseteq> set (nodes g)"
  shows "cov_inv g D S R \<Longrightarrow> fold (visit_link g) ks (S, V, R) = (S', V', R') \<Longrightarrow> cov_inv g D S' R'"
proof (induction ks arbitrary: S V R)
  case Nil
  then show ?case by simp
next
  case (Cons k ks)
  obtain S1 V1 R1 where s: "visit_link g k (S, V, R) = (S1, V1, R1)"
    by (cases "visit_link g k (S, V, R)") auto
  from visit_link_cov [OF assms Cons.prems(1) s] have "cov_inv g D S1 R1" .
  moreover from Cons.prems(2) s have "fold (visit_link g) ks (S1, V1, R1) = (S', V', R')"
    by simp
  ultimately show ?case by (rule Cons.IH)
qed

lemma visit_output_cov:
  assumes "coverage_wf g" and "D \<subseteq> set (nodes g)" and "cov_inv g D S R"
    and "visit_output g out (S, V, R) = (S', V', R')"
  shows "cov_inv g D S' R'"
  using assms fold_visit_link_cov [OF assms(1,2,3)]
  by (auto simp: visit_output_def split: option.splits)

lemma fold_visit_output_cov:
  assumes "coverage_wf g" and "D \<subseteq> set (nodes g)"
  shows "cov_inv g D S R \<Longrightarrow> fold (visit_output g) outs (S, V, R) = (S', V', R')
     \<Longrightarrow> cov_inv g D S' R'"
proof (induction outs arbitrary: S V R)
  case Nil
  then show ?case by simp
next
  case (Cons out outs)
  obtain S1 V1 R1 where s: "visit_output g out (S, V, R) = (S1, V1, R1)"
    by (cases "visit_output g out (S, V, R)") auto
  from visit_output_cov [OF assms Cons.prems(1) s] have "cov_inv g D S1 R1" .
  moreover from Cons.prems(2) s have "fold (visit_output g) outs (S1, V1, R1) = (S', V', R')"
    by simp
  ultimately show ?case by (rule Cons.IH)
qed

lemma visit_node_cov:
  assumes "coverage_wf g" and "D \<subseteq> set (nodes g)" and "cov_inv g D S R"
    and "visit_node g n (S, V, R) = (S', V', R')"
  shows "cov_inv g D S' R'"
  using assms fold_visit_output_cov [OF assms(1,2,3)]
  by (auto simp: visit_node_def split: option.splits)

lemma order_loop_cov:
  "coverage_wf g \<Longrightarrow> distinct L \<Longrightarrow> set L \<subseteq> set (nodes g) \<Longrightarrow> cov_inv g (set L) S R
     \<Longrightarrow> pending_inv g L M \<Longrightarrow> order_loop g S L M V R = (L', M')
     \<Longrightarrow> distinct L' \<and> set L' \<subseteq> set (nodes g) \<and> pending_inv g L' M'"
proof (induction g S L M V R rule: order_loop.induct)
  case (1 g L M V R)
  then show ?case by simp
next
  case (2 g n S L M V R)
  obtain S1 V1 R1 where vn: "visit_node g n (S, V, R) = (S1, V1, R1)"
    by (cases "visit_node g n (S, V, R)") auto
  note wf = "2.prems"(1)
  from "2.prems"(4) have nN: "n \<in> set (nodes g)" and nL: "n \<notin> set L" and nS: "n \<notin> set S"
    unfolding cov_inv_def by auto
  let ?L = "L @ [n]"
  let ?M = "AList.delete (nid g n) M"
  have dL: "distinct ?L" and sL: "set ?L \<subseteq> set (nodes g)"
    using "2.prems"(2,3) nN nL by simp_all
  have c0: "cov_inv g (set ?L) S R"
    using "2.prems"(4) unfolding cov_inv_def by auto
  from visit_node_cov [OF wf sL c0 vn] have c1: "cov_inv g (set ?L) S1 R1" .
  from "2.prems"(5) have dM: "distinct (map fst M)"
    and mM: "\<And>k a. map_of M k = Some a \<longleftrightarrow> a \<in> set (nodes g) \<and> a \<notin> set L \<and> nid g a = k"
    unfolding pending_inv_def by blast+
  have "map_of ?M k = Some a \<longleftrightarrow> a \<in> set (nodes g) \<and> a \<notin> set ?L \<and> nid g a = k" for k a
  proof (cases "a \<in> set (nodes g) \<and> nid g a = k")
    case True
    with wf nN have "k = nid g n \<longleftrightarrow> a = n"
      unfolding coverage_wf_def inj_on_def by blast
    with True mM [of k a] show ?thesis
      by (auto simp: delete_conv')
  next
    case False
    with mM [of k a] show ?thesis
      by (auto simp: delete_conv')
  qed
  with dM have p1: "pending_inv g ?L ?M"
    unfolding pending_inv_def by (simp add: distinct_delete)
  from "2.prems"(6) vn have "order_loop g S1 ?L ?M V1 R1 = (L', M')"
    by simp
  from "2.IH" [OF vn [symmetric] refl wf dL sL c1 p1 this] show ?case .
qed

text \<open>The first loop.\<close>

lemma fold_seed_node:
  "fold (seed_node g) xs (S, M, R)
     = (S @ filter (\<lambda>a. count_inputs (heap g a) = 0) xs,
        fold (\<lambda>a. AList.update (nid g a) a) xs M,
        fold (\<lambda>a R. if count_inputs (heap g a) = 0 then R
                     else AList.update (nid g a) (int (count_inputs (heap g a))) R) xs R)"
  by (induction xs arbitrary: S M R) (simp_all add: seed_node_def Let_def)

lemma seed_M:
  "distinct (map fst M) \<Longrightarrow> distinct (map (nid g) xs) \<Longrightarrow>
     distinct (map fst (fold (\<lambda>a. AList.update (nid g a) a) xs M))
     \<and> (\<forall>a\<in>set xs. map_of (fold (\<lambda>a. AList.update (nid g a) a) xs M) (nid g a) = Some a)
     \<and> (\<forall>k. k \<notin> nid g ` set xs \<longrightarrow>
           map_of (fold (\<lambda>a. AList.update (nid g a) a) xs M) k = map_of M k)"
proof (induction xs arbitrary: M)
  case Nil
  then show ?case by simp
next
  case (Cons x xs)
  let ?M = "AList.update (nid g x) x M"
  let ?F = "fold (\<lambda>a. AList.update (nid g a) a) xs ?M"
  from Cons.prems(1) have d: "distinct (map fst ?M)"
    by (simp add: distinct_update)
  from Cons.prems(2) have dx: "distinct (map (nid g) xs)" and nx: "nid g x \<notin> nid g ` set xs"
    by (simp_all only: list.map distinct.simps set_map) simp_all
  from Cons.IH [OF d dx]
  have dd: "distinct (map fst ?F)"
    and m1: "\<And>a. a \<in> set xs \<Longrightarrow> map_of ?F (nid g a) = Some a"
    and m2: "\<And>k. k \<notin> nid g ` set xs \<Longrightarrow> map_of ?F k = map_of ?M k"
    by blast+
  from m2 [OF nx] have mx: "map_of ?F (nid g x) = Some x"
    by (simp add: update_conv')
  have "map_of ?F k = map_of M k" if "k \<notin> nid g ` set (x # xs)" for k
    using m2 [of k] that by (simp add: update_conv')
  with dd m1 mx show ?case
    by simp
qed

lemma seed_R:
  "fst ` set R \<subseteq> nid g ` A \<Longrightarrow> set xs \<subseteq> A \<Longrightarrow>
     fst ` set (fold (\<lambda>a R. if count_inputs (heap g a) = 0 then R
                     else AList.update (nid g a) (int (count_inputs (heap g a))) R) xs R)
       \<subseteq> nid g ` A
   \<and> (\<forall>k. k \<notin> nid g ` {a \<in> set xs. count_inputs (heap g a) \<noteq> 0} \<longrightarrow>
         map_of (fold (\<lambda>a R. if count_inputs (heap g a) = 0 then R
                     else AList.update (nid g a) (int (count_inputs (heap g a))) R) xs R) k
           = map_of R k)"
proof (induction xs arbitrary: R)
  case Nil
  then show ?case by simp
next
  case (Cons x xs)
  let ?f = "\<lambda>a R. if count_inputs (heap g a) = 0 then R
                     else AList.update (nid g a) (int (count_inputs (heap g a))) R"
  let ?R = "?f x R"
  from Cons.prems have k: "fst ` set ?R \<subseteq> nid g ` A" and s: "set xs \<subseteq> A"
    by (auto simp: dom_update)
  from Cons.IH [OF k s]
  have k1: "fst ` set (fold ?f xs ?R) \<subseteq> nid g ` A"
    and m1: "\<And>k. k \<notin> nid g ` {a \<in> set xs. count_inputs (heap g a) \<noteq> 0}
        \<Longrightarrow> map_of (fold ?f xs ?R) k = map_of ?R k"
    by blast+
  have "map_of (fold ?f xs ?R) k = map_of R k"
    if "k \<notin> nid g ` {a \<in> set (x # xs). count_inputs (heap g a) \<noteq> 0}" for k
  proof -
    from that have "k \<notin> nid g ` {a \<in> set xs. count_inputs (heap g a) \<noteq> 0}"
      by auto
    from m1 [OF this] have "map_of (fold ?f xs ?R) k = map_of ?R k" .
    also from that have "map_of ?R k = map_of R k"
      by (auto simp: update_conv')
    finally show ?thesis .
  qed
  with k1 show ?case
    by simp
qed

lemma seed_cov:
  assumes wf: "coverage_wf g"
    and f: "fold (seed_node g) (nodes g) ([], [], []) = (S, M, R)"
  shows "cov_inv g {} S R \<and> pending_inv g [] M"
proof -
  let ?N = "set (nodes g)"
  from wf have d: "distinct (nodes g)" and inj: "inj_on (nid g) ?N"
    unfolding coverage_wf_def by blast+
  then have dn: "distinct (map (nid g) (nodes g))"
    by (simp add: distinct_map)
  from f have S: "S = filter (\<lambda>a. count_inputs (heap g a) = 0) (nodes g)"
    and M: "M = fold (\<lambda>a. AList.update (nid g a) a) (nodes g) []"
    and R: "R = fold (\<lambda>a R. if count_inputs (heap g a) = 0 then R
                     else AList.update (nid g a) (int (count_inputs (heap g a))) R) (nodes g) []"
    by (simp_all add: fold_seed_node)
  from seed_M [of "[]" g "nodes g", OF _ dn]
  have dM: "distinct (map fst M)"
    and m1: "\<And>a. a \<in> ?N \<Longrightarrow> map_of M (nid g a) = Some a"
    and m2: "\<And>k. k \<notin> nid g ` ?N \<Longrightarrow> map_of M k = None"
    unfolding M by simp_all
  have "map_of M k = Some a \<longleftrightarrow> a \<in> ?N \<and> a \<notin> set [] \<and> nid g a = k" for k a
  proof (cases "k \<in> nid g ` ?N")
    case True
    then obtain b where b: "b \<in> ?N" "k = nid g b" by blast
    from m1 [OF b(1)] b inj show ?thesis
      by (auto simp: inj_on_def)
  next
    case False
    with m2 [of k] show ?thesis by auto
  qed
  with dM have p: "pending_inv g [] M"
    unfolding pending_inv_def by blast
  from seed_R [of "[]" g ?N "nodes g"]
  have kR: "fst ` set R \<subseteq> nid g ` ?N"
    and mR: "\<And>k. k \<notin> nid g ` {a \<in> ?N. count_inputs (heap g a) \<noteq> 0} \<Longrightarrow> map_of R k = None"
    unfolding R by simp_all
  have "map_of R (nid g a) = None" if "a \<in> set S" for a
  proof -
    from that S have a: "a \<in> ?N" "count_inputs (heap g a) = 0" by simp_all
    have "nid g a \<notin> nid g ` {a \<in> ?N. count_inputs (heap g a) \<noteq> 0}"
    proof
      assume "nid g a \<in> nid g ` {a \<in> ?N. count_inputs (heap g a) \<noteq> 0}"
      then obtain b where b: "b \<in> ?N" "count_inputs (heap g b) \<noteq> 0" "nid g a = nid g b"
        by blast
      with inj a have "a = b" by (simp add: inj_on_def)
      with a b show False by simp
    qed
    then show ?thesis by (rule mR)
  qed
  with d kR have "cov_inv g {} S R"
    unfolding cov_inv_def S by auto
  with p show ?thesis by simp
qed

lemma js_keys_order_mset: "mset (js_keys_order m) = mset m"
  unfolding js_keys_order_def by (simp add: multiset_partition [symmetric])

text \<open>
  C2, as amended. For every graph whose array \<open>_nodes\<close> holds no node twice, whose nodes have unique
  ids and whose id map is consistent with them, with or without cycles and dangling
  links, the list that \<open>computeExecutionOrder\<close> returns has as many entries as the
  graph has nodes and holds every node of the graph exactly once. The function is
  total: it has no statement that throws, and its loop ends (the termination proof of
  \<open>order_loop\<close>). On the cycle of two nodes the result is the two nodes.
\<close>

theorem computeExecutionOrder_covers:
  assumes "coverage_wf g"
  shows "length (fst (computeExecutionOrder g)) = length (nodes g)
       \<and> distinct (fst (computeExecutionOrder g))
       \<and> set (fst (computeExecutionOrder g)) = set (nodes g)
       \<and> mset (fst (computeExecutionOrder g)) = mset (nodes g)"
proof -
  let ?N = "set (nodes g)"
  obtain S M R where f: "fold (seed_node g) (nodes g) ([], [], []) = (S, M, R)"
    by (cases "fold (seed_node g) (nodes g) ([], [], [])") auto
  obtain L M' where l: "order_loop g S [] M {} R = (L, M')"
    by (cases "order_loop g S [] M {} R") auto
  let ?rest = "map snd (js_keys_order M')"
  from f l have res: "fst (computeExecutionOrder g) = L @ ?rest"
    by (simp add: computeExecutionOrder_def Let_def)
  from seed_cov [OF assms f] have "cov_inv g (set []) S R" and "pending_inv g [] M"
    by simp_all
  from order_loop_cov [OF assms _ _ this l]
  have dL: "distinct L" and sL: "set L \<subseteq> ?N" and p: "pending_inv g L M'"
    by simp_all
  from p have dM: "distinct (map fst M')"
    and mM: "\<And>k a. map_of M' k = Some a \<longleftrightarrow> a \<in> ?N \<and> a \<notin> set L \<and> nid g a = k"
    unfolding pending_inv_def by blast+
  have mem: "(k, a) \<in> set M' \<longleftrightarrow> a \<in> ?N \<and> a \<notin> set L \<and> nid g a = k" for k a
    using mM [of k a] dM by simp
  have "inj_on snd (set M')"
    by (rule inj_onI) (use mem in auto)
  moreover from dM have "distinct M'"
    by (simp add: distinct_map)
  ultimately have "distinct (map snd M')"
    by (simp add: distinct_map)
  moreover have "mset ?rest = mset (map snd M')"
    by (simp add: js_keys_order_mset)
  ultimately have dr: "distinct ?rest"
    by (metis mset_eq_imp_distinct_iff)
  have "set ?rest = snd ` set M'"
    using mset_eq_setD [OF js_keys_order_mset [of M']] by simp
  also have "\<dots> = ?N - set L"
    using mem by force
  finally have sr: "set ?rest = ?N - set L" .
  from dL dr sr have d: "distinct (L @ ?rest)"
    by auto
  from sL sr have s: "set (L @ ?rest) = ?N"
    by auto
  from assms have "distinct (nodes g)"
    unfolding coverage_wf_def by blast
  from set_eq_iff_mset_eq_distinct [OF d this] s have m: "mset (L @ ?rest) = mset (nodes g)"
    by blast
  then have "length (L @ ?rest) = length (nodes g)"
    by (rule mset_eq_length)
  with d s m res show ?thesis
    by simp
qed

lemma two_cycle_wf: "coverage_wf two_cycle"
  by (auto simp: coverage_wf_def two_cycle_def graph_defs split: if_splits)

lemma two_cycle_order: "fst (computeExecutionOrder two_cycle) = [0, 1]"
  by (simp add: two_cycle_def graph_defs order_defs)

theorem computeExecutionOrder_covers_witness:
  "fst (computeExecutionOrder two_cycle) = [0, 1]
   \<and> length (fst (computeExecutionOrder two_cycle)) = length (nodes two_cycle)
   \<and> distinct (fst (computeExecutionOrder two_cycle))
   \<and> set (fst (computeExecutionOrder two_cycle)) = set (nodes two_cycle)"
  using computeExecutionOrder_covers [OF two_cycle_wf] two_cycle_order
  by simp

text \<open>
  C2 as stated fails on a graph with two nodes of the same id, which \<open>add\<close> builds from
  a node that brings the id 1 and two detached nodes: the second node of id 1 takes the
  place of the first in \<open>M\<close>, and the first, which waits for a link, is in neither part
  of the result.
\<close>

theorem computeExecutionOrder_covers_counterexample:
  "nodes shared_id_graph = [0, 2, 3]
   \<and> map (\<lambda>a. node_id (heap shared_id_graph a)) [0, 2, 3] = [1, 0, 1]
   \<and> fst (computeExecutionOrder shared_id_graph) = [2, 3]
   \<and> length (fst (computeExecutionOrder shared_id_graph)) \<noteq> length (nodes shared_id_graph)
   \<and> 0 \<notin> set (fst (computeExecutionOrder shared_id_graph))"
  by (simp add: shared_id_graph_def preassigned_connected_def apply_op_def add_def
      new_LGraph_def detached_def order_defs)

subsection \<open>The order of an acyclic graph\<close>

lemma visit_node_fold:
  "visit_node g n st = fold (visit_link g) (out_link_list (heap g n)) st"
proof -
  have "fold (visit_output g) outs st
      = fold (visit_link g)
          (concat (map (\<lambda>out. case out of None \<Rightarrow> []
                     | Some ou \<Rightarrow> (case slot_links ou of None \<Rightarrow> [] | Some ks \<Rightarrow> ks)) outs)) st"
    for outs
    by (induction outs arbitrary: st) (simp_all add: visit_output_def split: option.splits)
  then show ?thesis
    by (simp add: visit_node_def out_link_list_def split: option.splits)
qed

lemma in_links_card:
  assumes wf: "topo_wf g" and t: "t \<in> set (nodes g)"
  shows "finite (in_links g t) \<and> card (in_links g t) = count_inputs (heap g t)"
proof -
  define ins where "ins = (case inputs (heap g t) of None \<Rightarrow> [] | Some ins \<Rightarrow> ins)"
  define conn where "conn = {j. j < length ins \<and> connected (ins ! j)}"
  define f where "f j = the (slot_link (the (ins ! j)))" for j
  have gi: "get_input g t j = (if j < length ins then ins ! j else None)" for j
    by (simp add: get_input_def ins_def split: option.splits)
  have cnt: "count_inputs (heap g t) = card conn"
    by (simp add: count_inputs_def ins_def conn_def length_filter_conv_card split: option.splits)
  from wf t have I1: "\<And>j s k. get_input g t j = Some s \<Longrightarrow> slot_link s = Some k \<Longrightarrow>
      \<exists>l. links g k = Some l \<and> target_id l = nid g t \<and> target_slot l = j"
    unfolding topo_wf_def by blast
  from wf have L3: "\<And>k l t'. links g k = Some l \<Longrightarrow> nodes_by_id g (target_id l) = Some t' \<Longrightarrow>
      \<exists>s. get_input g t' (target_slot l) = Some s \<and> slot_link s = Some k"
    unfolding topo_wf_def by blast
  from wf t have reg: "nodes_by_id g (nid g t) = Some t"
    unfolding topo_wf_def by blast
  have slot: "\<exists>s. ins ! j = Some s \<and> slot_link s = Some (f j) \<and> get_input g t j = Some s"
    if "j \<in> conn" for j
    using that by (auto simp: conn_def connected_def f_def gi split: option.splits)
  have "bij_betw f conn (in_links g t)"
    unfolding bij_betw_def
  proof
    show "inj_on f conn"
    proof (rule inj_onI)
      fix i j
      assume i: "i \<in> conn" and j: "j \<in> conn" and e: "f i = f j"
      from slot [OF i] I1 obtain l where l: "links g (f i) = Some l" "target_slot l = i"
        by blast
      from slot [OF j] I1 obtain l' where l': "links g (f j) = Some l'" "target_slot l' = j"
        by blast
      from l l' e show "i = j" by simp
    qed
  next
    show "f ` conn = in_links g t"
    proof (intro equalityI subsetI)
      fix k
      assume "k \<in> f ` conn"
      then obtain j where j: "j \<in> conn" "k = f j" by blast
      from slot [OF j(1)] I1 j(2) show "k \<in> in_links g t"
        unfolding in_links_def by blast
    next
      fix k
      assume "k \<in> in_links g t"
      then obtain l where l: "links g k = Some l" "target_id l = nid g t"
        unfolding in_links_def by blast
      from reg l(2) have "nodes_by_id g (target_id l) = Some t"
        by simp
      from L3 [OF l(1) this] obtain s
        where s: "get_input g t (target_slot l) = Some s" "slot_link s = Some k"
        by blast
      from s gi [of "target_slot l"] have "target_slot l \<in> conn" and "f (target_slot l) = k"
        by (auto simp: conn_def connected_def f_def split: if_splits)
      then show "k \<in> f ` conn" by blast
    qed
  qed
  moreover have "finite conn"
    by (simp add: conn_def)
  ultimately show ?thesis
    using cnt bij_betw_finite bij_betw_same_card by metis
qed

text \<open>The positions that the last loop stores.\<close>

lemma fold_order_other:
  "a \<notin> snd ` set ps \<Longrightarrow> fold set_order ps h a = h a"
  by (induction ps arbitrary: h) (auto simp: set_order_def)

lemma fold_order_nth:
  "distinct xs \<Longrightarrow> i < length xs \<Longrightarrow>
     order (fold set_order (enumerate n xs) h (xs ! i)) = Some (digits (n + i))"
proof (induction xs arbitrary: n h i)
  case Nil
  then show ?case by simp
next
  case (Cons x xs)
  show ?case
  proof (cases i)
    case 0
    have "snd ` set (enumerate (Suc n) xs) = set (map snd (enumerate (Suc n) xs))"
      by (simp only: set_map)
    also have "\<dots> = set xs"
      by (simp only: map_snd_enumerate)
    finally have "snd ` set (enumerate (Suc n) xs) = set xs" .
    with Cons.prems(1) have "x \<notin> snd ` set (enumerate (Suc n) xs)"
      by simp
    then have "fold set_order (enumerate (Suc n) xs) (set_order (n, x) h) x = set_order (n, x) h x"
      by (rule fold_order_other)
    moreover have "fold set_order (enumerate n (x # xs)) h ((x # xs) ! 0)
        = fold set_order (enumerate (Suc n) xs) (set_order (n, x) h) x"
      by simp
    moreover have "order (set_order (n, x) h x) = Some (digits n)"
      by (simp add: set_order_def del: digits.simps)
    ultimately show ?thesis
      using 0 by simp
  next
    case (Suc j)
    with Cons.prems have "distinct xs" "j < length xs" by simp_all
    from Cons.IH [OF this, of "Suc n" "set_order (n, x) h"] Suc show ?thesis
      by simp
  qed
qed

lemma assign_order_nth:
  "distinct L \<Longrightarrow> i < length L \<Longrightarrow> order (assign_order L h (L ! i)) = Some (digits i)"
  using fold_order_nth [of L i 0 h] by (simp only: assign_order_def add_0)

lemma visit_link_topo:
  assumes wf: "topo_wf g" and D: "D \<subseteq> set (nodes g)" and n: "n \<in> D"
    and k: "k \<in> set (out_link_list (heap g n))"
    and inv: "vis_inv g D S V R" and v: "visit_link g k (S, V, R) = (S', V', R')"
  shows "vis_inv g D S' V' R' \<and> V \<subseteq> V' \<and> (links g k \<noteq> None \<longrightarrow> k \<in> V')"
proof (cases "links g k")
  case None
  with v have "S' = S \<and> V' = V \<and> R' = R"
    by (simp add: visit_link_def)
  with inv None show ?thesis by simp
next
  case lk: (Some l)
  from wf lk have lid: "link_id l = k"
    unfolding topo_wf_def by blast
  show ?thesis
  proof (cases "k \<in> V")
    case True
    with v lk lid have "S' = S \<and> V' = V \<and> R' = R"
      by (simp add: visit_link_def)
    with inv True show ?thesis by simp
  next
    case False
    let ?N = "set (nodes g)"
    from wf have inj: "inj_on (nid g) ?N"
      unfolding topo_wf_def coverage_wf_def by blast
    from wf have reg: "\<And>a. a \<in> ?N \<Longrightarrow> nodes_by_id g (nid g a) = Some a"
      unfolding topo_wf_def by blast
    from inv have TR: "\<And>t. t \<in> ?N \<Longrightarrow> map_of R (nid g t)
          = (if count_inputs (heap g t) = 0 then None
             else Some (int (card (in_links g t - V))))"
      and TS: "\<And>t. t \<in> ?N \<Longrightarrow> t \<in> set S \<union> D \<longleftrightarrow> in_links g t \<subseteq> V"
      and TV: "V \<subseteq> out_of g D"
      unfolding vis_inv_def by blast+
    from D n have "n \<in> ?N" by blast
    with wf k lk have "origin_id l = nid g n"
      unfolding topo_wf_def by blast
    with lk n have kout: "k \<in> out_of g D"
      unfolding out_of_def by blast
    show ?thesis
    proof (cases "nodes_by_id g (target_id l)")
      case None
      with v lk lid False have S': "S' = S" and V': "V' = insert k V" and R': "R' = R"
        by (simp_all add: visit_link_def getNodeById_def)
      have notin: "k \<notin> in_links g t'" if "t' \<in> ?N" for t'
      proof
        assume "k \<in> in_links g t'"
        with lk have "target_id l = nid g t'"
          unfolding in_links_def by simp
        with reg [OF that] None show False by simp
      qed
      have TR': "map_of R' (nid g t') = (if count_inputs (heap g t') = 0 then None
             else Some (int (card (in_links g t' - V'))))" if "t' \<in> ?N" for t'
      proof -
        from notin [OF that] have "in_links g t' - V' = in_links g t' - V"
          unfolding V' by auto
        with TR [OF that] show ?thesis
          by (simp add: R')
      qed
      have TS': "t' \<in> set S' \<union> D \<longleftrightarrow> in_links g t' \<subseteq> V'" if "t' \<in> ?N" for t'
      proof -
        from notin [OF that] have "in_links g t' \<subseteq> V' \<longleftrightarrow> in_links g t' \<subseteq> V"
          unfolding V' by auto
        with TS [OF that] show ?thesis
          by (simp add: S')
      qed
      from TV kout have TV': "V' \<subseteq> out_of g D"
        unfolding V' by simp
      from TR' TS' TV' have "vis_inv g D S' V' R'"
        unfolding vis_inv_def by blast
      then show ?thesis
        by (simp add: V' subset_insertI)
    next
      case tg: (Some t)
      from wf lk tg have t: "t \<in> ?N" "nid g t = target_id l"
        unfolding topo_wf_def by blast+
      from tg have get: "getNodeById g (target_id l) = Some t"
        by (simp add: getNodeById_def)
      from lk t have kin: "k \<in> in_links g t"
        unfolding in_links_def by simp
      from in_links_card [OF wf t(1)] have fin: "finite (in_links g t)"
        and card: "card (in_links g t) = count_inputs (heap g t)"
        by simp_all
      from kin fin have "card (in_links g t) \<noteq> 0"
        by auto
      with card have cnt: "count_inputs (heap g t) \<noteq> 0"
        by simp
      define c where "c = int (card (in_links g t - V))"
      from TR [OF t(1)] cnt have mR: "map_of R (nid g t) = Some c"
        by (simp add: c_def)
      from kin False fin have pos: "card (in_links g t - V) \<noteq> 0"
        by auto
      have diff: "in_links g t - insert k V = (in_links g t - V) - {k}"
        by auto
      from kin False fin have c1: "int (card (in_links g t - insert k V)) = c - 1"
        unfolding diff c_def by (simp add: card_Diff_singleton) (use pos in linarith)
      from v lk lid False get mR
      have S': "S' = (if c - 1 = 0 then S @ [t] else S)" and V': "V' = insert k V"
        and R': "R' = AList.update (nid g t) (c - 1) R"
        by (simp_all add: visit_link_def)
      have mR': "map_of R' = (map_of R)(nid g t \<mapsto> c - 1)"
        by (simp add: R' update_conv')
      have notin: "k \<notin> in_links g t'" if "t' \<in> ?N" "t' \<noteq> t" for t'
      proof
        assume "k \<in> in_links g t'"
        with lk have "target_id l = nid g t'"
          unfolding in_links_def by simp
        with t inj that show False
          by (simp add: inj_on_def)
      qed
      have other: "nid g t' \<noteq> nid g t" if "t' \<in> ?N" "t' \<noteq> t" for t'
        using inj t(1) that by (auto simp: inj_on_def)
      have TR': "map_of R' (nid g t') = (if count_inputs (heap g t') = 0 then None
               else Some (int (card (in_links g t' - V'))))" if "t' \<in> ?N" for t'
      proof (cases "t' = t")
        case True
        with cnt c1 show ?thesis
          by (simp add: mR' V')
      next
        case False
        from notin [OF that False] have "in_links g t' - V' = in_links g t' - V"
          unfolding V' by auto
        with TR [OF that] other [OF that False] show ?thesis
          by (simp add: mR')
      qed
      from TS [OF t(1)] kin \<open>k \<notin> V\<close> have tn: "t \<notin> set S \<union> D"
        by blast
      have TS': "t' \<in> set S' \<union> D \<longleftrightarrow> in_links g t' \<subseteq> V'" if "t' \<in> ?N" for t'
      proof (cases "t' = t")
        case True
        have "c - 1 = 0 \<longleftrightarrow> in_links g t - insert k V = {}"
          using c1 fin by (metis card_eq_0_iff finite_Diff of_nat_eq_0_iff)
        also have "\<dots> \<longleftrightarrow> in_links g t \<subseteq> V'"
          unfolding V' by auto
        finally show ?thesis
          using True tn by (auto simp: S')
      next
        case False
        from notin [OF that False] have "in_links g t' \<subseteq> V' \<longleftrightarrow> in_links g t' \<subseteq> V"
          unfolding V' by auto
        with TS [OF that] False show ?thesis
          by (auto simp: S')
      qed
      from TV kout have TV': "V' \<subseteq> out_of g D"
        unfolding V' by simp
      from TR' TS' TV' have "vis_inv g D S' V' R'"
        unfolding vis_inv_def by blast
      then show ?thesis
        by (simp add: V' subset_insertI)
    qed
  qed
qed

lemma fold_visit_link_topo:
  assumes wf: "topo_wf g" and D: "D \<subseteq> set (nodes g)" and n: "n \<in> D"
  shows "set ks \<subseteq> set (out_link_list (heap g n)) \<Longrightarrow> vis_inv g D S V R
     \<Longrightarrow> fold (visit_link g) ks (S, V, R) = (S', V', R')
     \<Longrightarrow> vis_inv g D S' V' R' \<and> V \<subseteq> V' \<and> (\<forall>k\<in>set ks. links g k \<noteq> None \<longrightarrow> k \<in> V')"
proof (induction ks arbitrary: S V R)
  case Nil
  then show ?case by simp
next
  case (Cons k ks)
  obtain S1 V1 R1 where s: "visit_link g k (S, V, R) = (S1, V1, R1)"
    by (cases "visit_link g k (S, V, R)") auto
  from Cons.prems(1) have k: "k \<in> set (out_link_list (heap g n))"
    and ks: "set ks \<subseteq> set (out_link_list (heap g n))"
    by simp_all
  from visit_link_topo [OF wf D n k Cons.prems(2) s]
  have i1: "vis_inv g D S1 V1 R1" and v1: "V \<subseteq> V1" and k1: "links g k \<noteq> None \<longrightarrow> k \<in> V1"
    by simp_all
  from Cons.prems(3) s have "fold (visit_link g) ks (S1, V1, R1) = (S', V', R')"
    by simp
  from Cons.IH [OF ks i1 this]
  have "vis_inv g D S' V' R'" and v2: "V1 \<subseteq> V'"
    and k2: "\<forall>k\<in>set ks. links g k \<noteq> None \<longrightarrow> k \<in> V'"
    by simp_all
  with v1 k1 show ?case
    by auto
qed

lemma out_of_mono: "D \<subseteq> D' \<Longrightarrow> out_of g D \<subseteq> out_of g D'"
  unfolding out_of_def by blast

lemma order_loop_topo:
  "topo_wf g \<Longrightarrow> distinct L \<Longrightarrow> set L \<subseteq> set (nodes g) \<Longrightarrow> cov_inv g (set L) S R
     \<Longrightarrow> vis_inv g (set L) S V R \<Longrightarrow> V = out_of g (set L) \<Longrightarrow> topo_list g L
     \<Longrightarrow> order_loop g S L M V R = (L', M')
     \<Longrightarrow> topo_list g L'
       \<and> (\<forall>t\<in>set (nodes g). t \<in> set L' \<longleftrightarrow> in_links g t \<subseteq> out_of g (set L'))"
proof (induction g S L M V R rule: order_loop.induct)
  case (1 g L M V R)
  then show ?case
    unfolding vis_inv_def by simp
next
  case (2 g n S L M V R)
  let ?N = "set (nodes g)"
  note wf = "2.prems"(1)
  from wf have cwf: "coverage_wf g" and inj: "inj_on (nid g) ?N"
    unfolding topo_wf_def coverage_wf_def by blast+
  obtain S1 V1 R1 where vn: "visit_node g n (S, V, R) = (S1, V1, R1)"
    by (cases "visit_node g n (S, V, R)") auto
  from "2.prems"(4) have nN: "n \<in> ?N" and nL: "n \<notin> set L"
    unfolding cov_inv_def by auto
  let ?L = "L @ [n]"
  have dL: "distinct ?L" and sL: "set ?L \<subseteq> ?N" and nD: "n \<in> set ?L"
    using "2.prems"(2,3) nN nL by simp_all
  have c0: "cov_inv g (set ?L) S R"
    using "2.prems"(4) unfolding cov_inv_def by auto
  from visit_node_cov [OF cwf sL c0 vn] have c1: "cov_inv g (set ?L) S1 R1" .
  from "2.prems"(5) have TS: "\<And>t. t \<in> ?N \<Longrightarrow> t \<in> set (n # S) \<union> set L \<longleftrightarrow> in_links g t \<subseteq> V"
    unfolding vis_inv_def by blast
  have v0: "vis_inv g (set ?L) S V R"
    using "2.prems"(5,6) out_of_mono [of "set L" "set ?L" g]
    unfolding vis_inv_def by auto
  from vn have f: "fold (visit_link g) (out_link_list (heap g n)) (S, V, R) = (S1, V1, R1)"
    by (simp add: visit_node_fold)
  from fold_visit_link_topo [OF wf sL nD subset_refl v0 f]
  have v1: "vis_inv g (set ?L) S1 V1 R1" and mono: "V \<subseteq> V1"
    and all: "\<And>k. k \<in> set (out_link_list (heap g n)) \<Longrightarrow> links g k \<noteq> None \<Longrightarrow> k \<in> V1"
    by blast+
  have "out_of g (set ?L) \<subseteq> V1"
  proof
    fix k
    assume "k \<in> out_of g (set ?L)"
    then obtain l ori where l: "links g k = Some l" and o: "ori \<in> set ?L" "origin_id l = nid g ori"
      unfolding out_of_def by blast
    show "k \<in> V1"
    proof (cases "ori = n")
      case True
      from wf l obtain o' where o': "o' \<in> ?N" "nid g o' = origin_id l"
        "k \<in> set (out_link_list (heap g o'))"
        unfolding topo_wf_def by blast
      with o True inj nN have "o' = n"
        by (simp add: inj_on_def)
      with o' l all show ?thesis by simp
    next
      case False
      with o l have "k \<in> out_of g (set L)"
        unfolding out_of_def by auto
      with "2.prems"(6) mono show ?thesis by blast
    qed
  qed
  moreover from v1 have "V1 \<subseteq> out_of g (set ?L)"
    unfolding vis_inv_def by blast
  ultimately have V1: "V1 = out_of g (set ?L)"
    by blast
  have tl: "topo_list g ?L"
    unfolding topo_list_def
  proof (intro allI impI)
    fix i
    assume i: "i < length ?L"
    show "in_links g (?L ! i) \<subseteq> out_of g (set (take i ?L))"
    proof (cases "i < length L")
      case True
      with "2.prems"(7) show ?thesis
        unfolding topo_list_def by (simp add: nth_append)
    next
      case False
      with i have "i = length L" by simp
      with TS [OF nN] "2.prems"(6) show ?thesis
        by simp
    qed
  qed
  from "2.prems"(8) vn have "order_loop g S1 ?L (AList.delete (nid g n) M) V1 R1 = (L', M')"
    by simp
  from "2.IH" [OF vn [symmetric] refl wf dL sL c1 v1 V1 tl this] show ?case .
qed

lemma seed_R_other:
  "k \<notin> nid g ` {a \<in> set xs. count_inputs (heap g a) \<noteq> 0} \<Longrightarrow>
     map_of (fold (\<lambda>a R. if count_inputs (heap g a) = 0 then R
                     else AList.update (nid g a) (int (count_inputs (heap g a))) R) xs R) k
       = map_of R k"
proof (induction xs arbitrary: R)
  case Nil
  show ?case by simp
next
  case (Cons x xs)
  define f where "f = (\<lambda>a R. if count_inputs (heap g a) = 0 then R
                     else AList.update (nid g a) (int (count_inputs (heap g a))) R)"
  from Cons.prems have "k \<notin> nid g ` {a \<in> set xs. count_inputs (heap g a) \<noteq> 0}"
    by auto
  from Cons.IH [OF this, of "f x R"] have "map_of (fold f xs (f x R)) k = map_of (f x R) k"
    by (simp add: f_def)
  also from Cons.prems have "\<dots> = map_of R k"
    by (auto simp: f_def update_conv')
  finally show ?case
    by (simp add: f_def)
qed

lemma seed_R_value:
  "distinct (map (nid g) xs) \<Longrightarrow> a \<in> set xs \<Longrightarrow> count_inputs (heap g a) \<noteq> 0 \<Longrightarrow>
     map_of (fold (\<lambda>a R. if count_inputs (heap g a) = 0 then R
                     else AList.update (nid g a) (int (count_inputs (heap g a))) R) xs R) (nid g a)
       = Some (int (count_inputs (heap g a)))"
proof (induction xs arbitrary: R)
  case Nil
  then show ?case by simp
next
  case (Cons x xs)
  define f where "f = (\<lambda>a R. if count_inputs (heap g a) = 0 then R
                     else AList.update (nid g a) (int (count_inputs (heap g a))) R)"
  from Cons.prems(1) have dx: "distinct (map (nid g) xs)" and nx: "nid g x \<notin> nid g ` set xs"
    by (simp_all only: list.map distinct.simps set_map) simp_all
  show ?case
  proof (cases "a \<in> set xs")
    case True
    from Cons.IH [OF dx True Cons.prems(3), of "f x R"] show ?thesis
      by (simp add: f_def)
  next
    case False
    with Cons.prems(2) have ax: "a = x" by simp
    from nx have "nid g x \<notin> nid g ` {a \<in> set xs. count_inputs (heap g a) \<noteq> 0}"
      by blast
    from seed_R_other [OF this, of "f x R"]
    have "map_of (fold f xs (f x R)) (nid g x) = map_of (f x R) (nid g x)"
      by (simp add: f_def)
    also from Cons.prems(3) ax have "\<dots> = Some (int (count_inputs (heap g x)))"
      by (simp add: f_def update_conv')
    finally show ?thesis
      using ax by (simp add: f_def)
  qed
qed

lemma seed_topo:
  assumes wf: "topo_wf g"
    and f: "fold (seed_node g) (nodes g) ([], [], []) = (S, M, R)"
  shows "vis_inv g {} S {} R"
proof -
  let ?N = "set (nodes g)"
  from wf have d: "distinct (nodes g)" and inj: "inj_on (nid g) ?N"
    unfolding topo_wf_def coverage_wf_def by blast+
  then have dn: "distinct (map (nid g) (nodes g))"
    by (simp add: distinct_map)
  from f have S: "S = filter (\<lambda>a. count_inputs (heap g a) = 0) (nodes g)"
    and R: "R = fold (\<lambda>a R. if count_inputs (heap g a) = 0 then R
                     else AList.update (nid g a) (int (count_inputs (heap g a))) R) (nodes g) []"
    by (simp_all add: fold_seed_node)
  have mR0: "map_of R k = None" if "k \<notin> nid g ` {a \<in> ?N. count_inputs (heap g a) \<noteq> 0}" for k
    unfolding R using seed_R_other [OF that, of "[]"] by simp
  have mR1: "map_of R (nid g a) = Some (int (count_inputs (heap g a)))"
    if "a \<in> ?N" "count_inputs (heap g a) \<noteq> 0" for a
    unfolding R using seed_R_value [OF dn that, of "[]"] by simp
  have TR: "map_of R (nid g t) = (if count_inputs (heap g t) = 0 then None
             else Some (int (card (in_links g t - {}))))" if t: "t \<in> ?N" for t
  proof (cases "count_inputs (heap g t) = 0")
    case True
    have "nid g t \<notin> nid g ` {a \<in> ?N. count_inputs (heap g a) \<noteq> 0}"
    proof
      assume "nid g t \<in> nid g ` {a \<in> ?N. count_inputs (heap g a) \<noteq> 0}"
      then obtain b where b: "b \<in> ?N" "count_inputs (heap g b) \<noteq> 0" "nid g t = nid g b"
        by blast
      with inj t have "t = b" by (simp add: inj_on_def)
      with True b show False by simp
    qed
    from mR0 [OF this] True show ?thesis by simp
  next
    case False
    with mR1 [OF t False] in_links_card [OF wf t] show ?thesis
      by simp
  qed
  have TS: "t \<in> set S \<union> {} \<longleftrightarrow> in_links g t \<subseteq> {}" if t: "t \<in> ?N" for t
    using in_links_card [OF wf t] t by (auto simp: S)
  from TR TS show ?thesis
    unfolding vis_inv_def out_of_def by simp
qed

text \<open>The key of a position denotes the position.\<close>

lemma digit_value_nth: "k < 10 \<Longrightarrow> digit_value (''0123456789'' ! k) = Some k"
proof -
  assume "k < 10"
  then have "k \<in> {0, 1, 2, 3, 4, 5, 6, 7, 8, 9}"
    by auto
  then show ?thesis
    by (auto simp: digit_value_def)
qed

lemma decimal_acc_append:
  "decimal_acc v (s @ [c])
     = (case decimal_acc v s of
          None \<Rightarrow> None
        | Some w \<Rightarrow> (case digit_value c of None \<Rightarrow> None | Some d \<Rightarrow> Some (10 * w + d)))"
  by (induction s arbitrary: v) (simp_all split: option.splits)

lemma decimal_acc_digits: "decimal_acc 0 (digits n) = Some n"
proof (induction n rule: digits.induct)
  case (1 n)
  show ?case
  proof (cases "n < 10")
    case True
    then have "digits n = [''0123456789'' ! n]"
      by (subst digits.simps) (simp only: if_True)
    with digit_value_nth [OF True] show ?thesis
      by (simp only: decimal_acc.simps option.simps mult_0_right add_0)
  next
    case False
    then have d: "digits n = digits (n div 10) @ [''0123456789'' ! (n mod 10)]"
      by (subst digits.simps) (simp only: if_False)
    have "n mod 10 < 10"
      by simp
    from digit_value_nth [OF this] "1.IH" [OF False]
    have "decimal_acc 0 (digits n) = Some (10 * (n div 10) + n mod 10)"
      by (simp only: d decimal_acc_append option.simps)
    then show ?thesis
      by simp
  qed
qed

lemma digits_not_Nil: "digits n \<noteq> []"
  by (subst digits.simps) (simp only: split: if_splits, simp)

lemma decimal_digits: "decimal (digits n) = Some n"
  by (simp only: decimal_def digits_not_Nil if_False decimal_acc_digits)

lemma order_before_trans: "order_before g a b \<Longrightarrow> order_before g b c \<Longrightarrow> order_before g a c"
  unfolding order_before_def by (auto split: option.splits)

lemma finite_node_edges: "finite (node_edges g)"
proof (rule finite_subset)
  show "node_edges g \<subseteq> set (nodes g) \<times> set (nodes g)"
    unfolding node_edges_def by auto
qed simp

text \<open>On an acyclic graph the loop reaches every node, and the result is the list \<open>L\<close>.\<close>

lemma acyclic_order:
  assumes wf: "topo_wf g" and ac: "acyclic (node_edges g)"
  shows "\<exists>L. computeExecutionOrder g = (L, g\<lparr>heap := assign_order L (heap g)\<rparr>)
           \<and> distinct L \<and> set L = set (nodes g) \<and> topo_list g L"
proof -
  let ?N = "set (nodes g)"
  from wf have cwf: "coverage_wf g"
    unfolding topo_wf_def by blast
  obtain S M R where f: "fold (seed_node g) (nodes g) ([], [], []) = (S, M, R)"
    by (cases "fold (seed_node g) (nodes g) ([], [], [])") auto
  obtain L M' where l: "order_loop g S [] M {} R = (L, M')"
    by (cases "order_loop g S [] M {} R") auto
  from seed_cov [OF cwf f] have c: "cov_inv g (set []) S R" and p: "pending_inv g [] M"
    by simp_all
  from order_loop_cov [OF cwf _ _ c p l]
  have dL: "distinct L" and sL: "set L \<subseteq> ?N" and pL: "pending_inv g L M'"
    by simp_all
  from seed_topo [OF wf f] have v: "vis_inv g (set []) S {} R"
    by simp
  have "{} = out_of g (set [])" and "topo_list g []"
    unfolding out_of_def topo_list_def by simp_all
  from order_loop_topo [OF wf _ _ c v this l]
  have tl: "topo_list g L"
    and reach: "\<And>t. t \<in> ?N \<Longrightarrow> t \<in> set L \<longleftrightarrow> in_links g t \<subseteq> out_of g (set L)"
    by simp_all
  have all: "?N \<subseteq> set L"
  proof (rule ccontr)
    assume "\<not> ?N \<subseteq> set L"
    then obtain x where x: "x \<in> ?N - set L" by blast
    from finite_acyclic_wf [OF finite_node_edges ac] have "wf (node_edges g)" .
    from wfE_min [OF this x] obtain z where z: "z \<in> ?N - set L"
      and min: "\<And>y. (y, z) \<in> node_edges g \<Longrightarrow> y \<notin> ?N - set L"
      by blast
    have "in_links g z \<subseteq> out_of g (set L)"
    proof
      fix k
      assume "k \<in> in_links g z"
      then obtain l where l: "links g k = Some l" "target_id l = nid g z"
        unfolding in_links_def by blast
      from wf l(1) obtain ori where o: "ori \<in> ?N" "nid g ori = origin_id l"
        unfolding topo_wf_def by blast
      with l z have "(ori, z) \<in> node_edges g"
        unfolding node_edges_def by auto
      from min [OF this] o have "ori \<in> set L" by simp
      with l o show "k \<in> out_of g (set L)"
        unfolding out_of_def by auto
    qed
    with reach [of z] z show False by simp
  qed
  with sL have eq: "set L = ?N" by blast
  from pL eq have "map_of M' = Map.empty"
    unfolding pending_inv_def by (intro ext) (metis not_Some_eq)
  then have "M' = []"
    by (simp add: map_of_eq_empty_iff)
  with f l have "computeExecutionOrder g = (L, g\<lparr>heap := assign_order L (heap g)\<rparr>)"
    by (simp add: computeExecutionOrder_def js_keys_order_def)
  with dL eq tl show ?thesis by blast
qed

text \<open>
  C1, as amended. For every acyclic graph that satisfies the invariants of the data model
  (\<open>topo_wf\<close>), after \<open>computeExecutionOrder\<close> the \<open>order\<close> of a node is the key of its
  position in the list returned, a string that denotes this position; every link of the
  graph leads from a node to a node whose \<open>order\<close> denotes a strictly greater number,
  and so does every chain of links.
\<close>

theorem computeExecutionOrder_topological:
  assumes wf: "topo_wf g" and ac: "acyclic (node_edges g)"
  shows "(\<forall>k l a b. links g k = Some l \<and> getNodeById g (origin_id l) = Some a
             \<and> getNodeById g (target_id l) = Some b
           \<longrightarrow> order_before (snd (computeExecutionOrder g)) a b)
       \<and> (\<forall>a b. (a, b) \<in> (node_edges g)\<^sup>+ \<longrightarrow> order_before (snd (computeExecutionOrder g)) a b)
       \<and> (\<forall>i<length (nodes g).
             order (heap (snd (computeExecutionOrder g)) (fst (computeExecutionOrder g) ! i))
               = Some (digits i)
             \<and> order_number (snd (computeExecutionOrder g)) (fst (computeExecutionOrder g) ! i)
               = Some i)"
proof -
  let ?N = "set (nodes g)"
  let ?g = "snd (computeExecutionOrder g)"
  from acyclic_order [OF wf ac] obtain L
    where c: "computeExecutionOrder g = (L, g\<lparr>heap := assign_order L (heap g)\<rparr>)"
      and dL: "distinct L" and sL: "set L = ?N" and tl: "topo_list g L"
    by blast
  from wf have inj: "inj_on (nid g) ?N"
    unfolding topo_wf_def coverage_wf_def by blast
  from wf have reg: "\<And>a. a \<in> ?N \<Longrightarrow> nodes_by_id g (nid g a) = Some a"
    unfolding topo_wf_def by blast
  have pos: "order (heap ?g (L ! i)) = Some (digits i)" if "i < length L" for i
    using assign_order_nth [OF dL that] c by simp
  have num: "order_number ?g (L ! i) = Some i" if "i < length L" for i
    unfolding order_number_def by (simp only: pos [OF that] option.simps decimal_digits)
  have edge: "order_before ?g a b" if e: "(a, b) \<in> node_edges g" for a b
  proof -
    from e obtain k l where ab: "a \<in> ?N" "b \<in> ?N"
      and l: "links g k = Some l" "origin_id l = nid g a" "target_id l = nid g b"
      unfolding node_edges_def by blast
    from ab(2) sL obtain j where j: "j < length L" "L ! j = b"
      by (metis in_set_conv_nth)
    from l have "k \<in> in_links g b"
      unfolding in_links_def by simp
    with tl j have "k \<in> out_of g (set (take j L))"
      unfolding topo_list_def by blast
    with l(1) obtain a' where a': "a' \<in> set (take j L)" "origin_id l = nid g a'"
      unfolding out_of_def by auto
    from a'(1) have "a' \<in> set L"
      by (rule in_set_takeD)
    with sL have "a' \<in> ?N"
      by simp
    with a'(2) l(2) ab(1) inj have "a' = a"
      by (simp add: inj_on_def)
    with a'(1) obtain i where i: "i < length (take j L)" "take j L ! i = a"
      by (metis in_set_conv_nth)
    with j(1) have "i < j" and "i < length L" and "L ! i = a"
      by simp_all
    with num [of i] num [of j] j show ?thesis
      unfolding order_before_def by auto
  qed
  have trans: "order_before ?g a b" if "(a, b) \<in> (node_edges g)\<^sup>+" for a b
    using that
  proof (induction rule: trancl_induct)
    case (base y)
    then show ?case by (rule edge)
  next
    case (step y z)
    from step.IH edge [OF step.hyps(2)] show ?case
      by (rule order_before_trans)
  qed
  have link: "order_before ?g a b"
    if "links g k = Some l" "getNodeById g (origin_id l) = Some a"
      "getNodeById g (target_id l) = Some b" for k l a b
  proof -
    from wf that(1) obtain a' where a': "a' \<in> ?N" "nid g a' = origin_id l"
      unfolding topo_wf_def by blast
    from reg [OF a'(1)] a'(2) that(2) have "a' = a"
      by (simp add: getNodeById_def)
    from that(3) have "nodes_by_id g (target_id l) = Some b"
      by (simp add: getNodeById_def)
    with wf that(1) have b: "b \<in> ?N" "nid g b = target_id l"
      unfolding topo_wf_def by blast+
    with a' \<open>a' = a\<close> that(1) have "(a, b) \<in> node_edges g"
      unfolding node_edges_def by auto
    then show ?thesis by (rule edge)
  qed
  from distinct_card [OF dL] sL distinct_card [of "nodes g"] wf
  have len: "length L = length (nodes g)"
    unfolding topo_wf_def coverage_wf_def by simp
  from link trans pos num len c show ?thesis
    by auto
qed

lemma fan_in_coverage_wf: "coverage_wf fan_in"
  by (auto simp: coverage_wf_def fan_in_def graph_defs split: if_splits)

lemma fan_in_wf: "topo_wf fan_in"
  unfolding topo_wf_def
proof (intro conjI)
  show "coverage_wf fan_in" by (rule fan_in_coverage_wf)
  show "\<forall>a\<in>set (nodes fan_in). nodes_by_id fan_in (nid fan_in a) = Some a"
    by (simp add: fan_in_def graph_defs)
  show "\<forall>k l. links fan_in k = Some l \<longrightarrow>
           link_id l = k
           \<and> (\<exists>ori\<in>set (nodes fan_in). nid fan_in ori = origin_id l \<and> k \<in> set (out_link_list (heap fan_in ori)))
           \<and> (\<forall>t. nodes_by_id fan_in (target_id l) = Some t \<longrightarrow>
                 t \<in> set (nodes fan_in) \<and> nid fan_in t = target_id l
                 \<and> (\<exists>s. get_input fan_in t (target_slot l) = Some s \<and> slot_link s = Some k))"
    by (auto simp: fan_in_def graph_defs out_link_list_def get_input_def split: if_splits)
  show "\<forall>t\<in>set (nodes fan_in). \<forall>j s k. get_input fan_in t j = Some s \<and> slot_link s = Some k \<longrightarrow>
           (\<exists>l. links fan_in k = Some l \<and> target_id l = nid fan_in t \<and> target_slot l = j)"
    by (auto simp: fan_in_def graph_defs get_input_def nth_Cons' split: if_splits)
  show "\<forall>ori\<in>set (nodes fan_in). \<forall>k\<in>set (out_link_list (heap fan_in ori)). \<forall>l.
           links fan_in k = Some l \<longrightarrow> origin_id l = nid fan_in ori"
    by (auto simp: fan_in_def graph_defs out_link_list_def split: if_splits)
qed

lemma fan_in_acyclic: "acyclic (node_edges fan_in)"
proof -
  have "node_edges fan_in \<subseteq> {(a, b). a < b}"
    by (auto simp: node_edges_def fan_in_def graph_defs split: if_splits)
  moreover have "acyclic {(a, b). a < (b::nat)}"
    by (rule wf_acyclic) (rule wf_less)
  ultimately show ?thesis
    by (rule acyclic_subset [rotated])
qed

lemma fan_in_order:
  "fst (computeExecutionOrder fan_in) = [0, 1, 2]
   \<and> map (\<lambda>a. order (heap (snd (computeExecutionOrder fan_in)) a)) [0, 1, 2]
       = [Some ''0'', Some ''1'', Some ''2'']"
  by (simp add: fan_in_def graph_defs order_defs)

text \<open>
  C1 as stated fails in two ways. On a graph of eleven nodes that satisfies the
  invariants, where node 9 feeds node 10, the two nodes get the orders \<open>"9"\<close> and
  \<open>"10"\<close>, and \<open>"9" < "10"\<close> is false: the orders are strings, which compare by their
  characters. On an acyclic graph with a dangling link, node 1 never gets ready, nor
  does node 0 that it feeds, and the nodes that are left are appended in the order of
  their ids, node 0 before node 1.
\<close>

lemma eleven_wf: "topo_wf eleven"
  unfolding topo_wf_def
proof (intro conjI)
  show "coverage_wf eleven"
    by (auto simp: coverage_wf_def eleven_def graph_defs inj_on_def split: if_splits)
  show "\<forall>a\<in>set (nodes eleven). nodes_by_id eleven (nid eleven a) = Some a"
    by (simp add: eleven_def graph_defs)
  show "\<forall>k l. links eleven k = Some l \<longrightarrow>
           link_id l = k
           \<and> (\<exists>ori\<in>set (nodes eleven). nid eleven ori = origin_id l \<and> k \<in> set (out_link_list (heap eleven ori)))
           \<and> (\<forall>t. nodes_by_id eleven (target_id l) = Some t \<longrightarrow>
                 t \<in> set (nodes eleven) \<and> nid eleven t = target_id l
                 \<and> (\<exists>s. get_input eleven t (target_slot l) = Some s \<and> slot_link s = Some k))"
    by (auto simp: eleven_def graph_defs out_link_list_def get_input_def split: if_splits)
  show "\<forall>t\<in>set (nodes eleven). \<forall>j s k. get_input eleven t j = Some s \<and> slot_link s = Some k \<longrightarrow>
           (\<exists>l. links eleven k = Some l \<and> target_id l = nid eleven t \<and> target_slot l = j)"
    by (auto simp: eleven_def graph_defs get_input_def nth_Cons' split: if_splits)
  show "\<forall>ori\<in>set (nodes eleven). \<forall>k\<in>set (out_link_list (heap eleven ori)). \<forall>l.
           links eleven k = Some l \<longrightarrow> origin_id l = nid eleven ori"
    by (auto simp: eleven_def graph_defs out_link_list_def split: if_splits)
qed

lemma eleven_acyclic: "acyclic (node_edges eleven)"
proof -
  have "node_edges eleven \<subseteq> {(a, b). a < b}"
    by (auto simp: node_edges_def eleven_def graph_defs split: if_splits)
  moreover have "acyclic {(a, b). a < (b::nat)}"
    by (rule wf_acyclic) (rule wf_less)
  ultimately show ?thesis
    by (rule acyclic_subset [rotated])
qed

lemma eleven_result:
  "computeExecutionOrder eleven
     = ([0, 1, 2, 3, 4, 5, 6, 7, 8, 9, 10],
        eleven\<lparr>heap := assign_order [0, 1, 2, 3, 4, 5, 6, 7, 8, 9, 10] (heap eleven)\<rparr>)"
  by (simp add: eleven_def graph_defs computeExecutionOrder_def seed_node_def
      count_inputs_def connected_def visit_node_def visit_output_def visit_link_def getNodeById_def
      js_keys_order_def Let_def)

lemma eleven_order:
  "fst (computeExecutionOrder eleven) = [0, 1, 2, 3, 4, 5, 6, 7, 8, 9, 10]
   \<and> order (heap (snd (computeExecutionOrder eleven)) 9) = Some ''9''
   \<and> order (heap (snd (computeExecutionOrder eleven)) 10) = Some ''10''"
proof -
  let ?L = "[0, 1, 2, 3, 4, 5, 6, 7, 8, 9, 10::nat]"
  have d: "distinct ?L"
    by simp
  from assign_order_nth [OF d, of 9 "heap eleven"] assign_order_nth [OF d, of 10 "heap eleven"]
  have "order (assign_order ?L (heap eleven) 9) = Some ''9''"
    and "order (assign_order ?L (heap eleven) 10) = Some ''10''"
    by simp_all
  then show ?thesis
    by (simp add: eleven_result)
qed

lemma dangling_acyclic: "acyclic (node_edges dangling)"
proof -
  have "node_edges dangling \<subseteq> {(a, b). b < a}"
    by (auto simp: node_edges_def dangling_def graph_defs split: if_splits)
  moreover have "acyclic {(a, b). b < (a::nat)}"
    using wf_acyclic [OF wf_less] acyclic_converse [of "{(a, b). a < (b::nat)}"]
    by (simp add: converse_unfold)
  ultimately show ?thesis
    by (rule acyclic_subset [rotated])
qed

lemma dangling_order:
  "fst (computeExecutionOrder dangling) = [0, 1]
   \<and> order (heap (snd (computeExecutionOrder dangling)) 1) = Some ''1''
   \<and> order (heap (snd (computeExecutionOrder dangling)) 0) = Some ''0''"
  by (simp add: dangling_def graph_defs order_defs)

theorem computeExecutionOrder_topological_counterexample:
  "topo_wf eleven \<and> acyclic (node_edges eleven)
   \<and> links eleven 0 = Some (mk_link 0 9 0 10 0)
   \<and> getNodeById eleven (origin_id (mk_link 0 9 0 10 0)) = Some 9
   \<and> getNodeById eleven (target_id (mk_link 0 9 0 10 0)) = Some 10
   \<and> order (heap (snd (computeExecutionOrder eleven)) 9) = Some ''9''
   \<and> order (heap (snd (computeExecutionOrder eleven)) 10) = Some ''10''
   \<and> \<not> order_less (snd (computeExecutionOrder eleven)) 9 10
   \<and> acyclic (node_edges dangling)
   \<and> links dangling 1 = Some (mk_link 1 1 0 0 0)
   \<and> getNodeById dangling (origin_id (mk_link 1 1 0 0 0)) = Some 1
   \<and> getNodeById dangling (target_id (mk_link 1 1 0 0 0)) = Some 0
   \<and> fst (computeExecutionOrder dangling) = [0, 1]
   \<and> order (heap (snd (computeExecutionOrder dangling)) 1) = Some ''1''
   \<and> order (heap (snd (computeExecutionOrder dangling)) 0) = Some ''0''
   \<and> \<not> order_less (snd (computeExecutionOrder dangling)) 1 0
   \<and> \<not> order_before (snd (computeExecutionOrder dangling)) 1 0"
proof -
  have "links eleven 0 = Some (mk_link 0 9 0 10 0)
      \<and> getNodeById eleven (origin_id (mk_link 0 9 0 10 0)) = Some 9
      \<and> getNodeById eleven (target_id (mk_link 0 9 0 10 0)) = Some 10"
    by (simp add: eleven_def graph_defs getNodeById_def)
  moreover from eleven_order have "\<not> order_less (snd (computeExecutionOrder eleven)) 9 10"
    by (simp add: order_less_def)
  moreover have "links dangling 1 = Some (mk_link 1 1 0 0 0)
      \<and> getNodeById dangling (origin_id (mk_link 1 1 0 0 0)) = Some 1
      \<and> getNodeById dangling (target_id (mk_link 1 1 0 0 0)) = Some 0"
    by (simp add: dangling_def graph_defs getNodeById_def)
  moreover from dangling_order
  have "\<not> order_less (snd (computeExecutionOrder dangling)) 1 0"
    and "\<not> order_before (snd (computeExecutionOrder dangling)) 1 0"
    by (simp_all add: order_less_def order_before_def order_number_def decimal_def
        digit_value_def)
  ultimately show ?thesis
    using eleven_wf eleven_acyclic eleven_order dangling_acyclic dangling_order
    by blast
qed

text \<open>
  The amended statement on the two graphs with all invariants: the link of the eleven
  nodes leads from the order that denotes 9 to the order that denotes 10.
\<close>

theorem computeExecutionOrder_topological_witness:
  "links fan_in 0 = Some (mk_link 0 0 0 2 0)
   \<and> getNodeById fan_in 0 = Some 0 \<and> getNodeById fan_in 2 = Some 2
   \<and> order_before (snd (computeExecutionOrder fan_in)) 0 2
   \<and> map (\<lambda>a. order (heap (snd (computeExecutionOrder fan_in)) a)) [0, 1, 2]
       = [Some ''0'', Some ''1'', Some ''2'']
   \<and> links eleven 0 = Some (mk_link 0 9 0 10 0)
   \<and> getNodeById eleven 9 = Some 9 \<and> getNodeById eleven 10 = Some 10
   \<and> order_before (snd (computeExecutionOrder eleven)) 9 10"
proof -
  have l: "links fan_in 0 = Some (mk_link 0 0 0 2 0)"
    and a: "getNodeById fan_in (origin_id (mk_link 0 0 0 2 0)) = Some 0"
    and b: "getNodeById fan_in (target_id (mk_link 0 0 0 2 0)) = Some 2"
    by (simp_all add: fan_in_def graph_defs getNodeById_def)
  from computeExecutionOrder_topological [OF fan_in_wf fan_in_acyclic] l a b
  have f: "order_before (snd (computeExecutionOrder fan_in)) 0 2"
    by blast
  have l': "links eleven 0 = Some (mk_link 0 9 0 10 0)"
    and a': "getNodeById eleven (origin_id (mk_link 0 9 0 10 0)) = Some 9"
    and b': "getNodeById eleven (target_id (mk_link 0 9 0 10 0)) = Some 10"
    by (simp_all add: eleven_def graph_defs getNodeById_def)
  from computeExecutionOrder_topological [OF eleven_wf eleven_acyclic] l' a' b'
  have e: "order_before (snd (computeExecutionOrder eleven)) 9 10"
    by blast
  from l a b f fan_in_order l' a' b' e show ?thesis
    by (simp add: mk_link_def)
qed

subsection \<open>What the calls leave alone\<close>

lemma assign_order_fields:
  "node_id (assign_order L h a) = node_id (h a) \<and> inputs (assign_order L h a) = inputs (h a)
   \<and> outputs (assign_order L h a) = outputs (h a)
   \<and> ignore_remove (assign_order L h a) = ignore_remove (h a)"
proof -
  have "node_id (fold set_order ps h a) = node_id (h a)
      \<and> inputs (fold set_order ps h a) = inputs (h a)
      \<and> outputs (fold set_order ps h a) = outputs (h a)
      \<and> ignore_remove (fold set_order ps h a) = ignore_remove (h a)" for ps
    by (induction ps arbitrary: h) (simp_all add: set_order_def)
  then show ?thesis
    by (simp add: assign_order_def)
qed

lemma updateExecutionOrder_frame: "same_but_order g (updateExecutionOrder g)"
  by (simp add: same_but_order_def updateExecutionOrder_def computeExecutionOrder_def Let_def
      assign_order_fields split: prod.splits)

lemma same_ids_refl: "same_ids g g"
  by (simp add: same_ids_def)

lemma same_ids_trans: "same_ids g g' \<Longrightarrow> same_ids g' g'' \<Longrightarrow> same_ids g g''"
  by (simp add: same_ids_def)

lemma updateExecutionOrder_ids: "same_ids g (updateExecutionOrder g)"
  using updateExecutionOrder_frame [of g] by (simp add: same_but_order_def same_ids_def)

lemma destroy_link_ids: "same_ids g (destroy_link k g)"
  by (simp add: destroy_link_def same_ids_def getNodeById_def Let_def split: option.splits)

lemma fold_destroy_link_ids: "same_ids g (fold destroy_link ks g)"
proof (induction ks arbitrary: g)
  case Nil
  show ?case by (simp add: same_ids_refl)
next
  case (Cons k ks)
  from same_ids_trans [OF destroy_link_ids Cons.IH] show ?case by simp
qed

lemma disconnectInput_ids: "same_ids g (disconnectInput a i g)"
proof -
  have "same_ids g' (onConnectionChange (destroy_link k g'))" for g' k
    unfolding onConnectionChange_def
    by (rule same_ids_trans [OF destroy_link_ids updateExecutionOrder_ids])
  moreover have "same_ids g (g\<lparr>heap := (heap g)(a := (heap g a)\<lparr>inputs := x\<rparr>)\<rparr>)" for x
    by (simp add: same_ids_def)
  ultimately show ?thesis
    by (auto simp: disconnectInput_def Let_def split: option.splits intro: same_ids_trans same_ids_refl)
qed

lemma disconnectOutput_ids: "same_ids g (disconnectOutput a i g)"
proof -
  have "same_ids g' (g'\<lparr>heap := (heap g')(a := (heap g' a)\<lparr>outputs := x\<rparr>)\<rparr>)" for x g'
    by (simp add: same_ids_def)
  then have "same_ids g (onConnectionChange ((fold destroy_link ks g)
      \<lparr>heap := (heap (fold destroy_link ks g))(a := (heap (fold destroy_link ks g) a)\<lparr>outputs := x\<rparr>)\<rparr>))"
    for ks x
    unfolding onConnectionChange_def
    by (blast intro: same_ids_trans fold_destroy_link_ids updateExecutionOrder_ids)
  then show ?thesis
    by (auto simp: disconnectOutput_def Let_def split: option.splits intro: same_ids_refl)
qed

lemma disconnect_inputs_ids: "same_ids g (snd (disconnect_inputs a is g))"
proof (induction "is" arbitrary: g)
  case Nil
  show ?case by (simp add: same_ids_refl)
next
  case (Cons i "is")
  show ?case
    using Cons.IH [of g] Cons.IH [of "disconnectInput a i g"] disconnectInput_ids [of g a i]
    by (auto split: option.splits intro: same_ids_trans same_ids_refl)
qed

lemma disconnect_outputs_ids: "same_ids g (snd (disconnect_outputs a is g))"
proof (induction "is" arbitrary: g)
  case Nil
  show ?case by (simp add: same_ids_refl)
next
  case (Cons i "is")
  show ?case
    using Cons.IH [of g] Cons.IH [of "disconnectOutput a i g"] disconnectOutput_ids [of g a i]
    by (auto split: option.splits intro: same_ids_trans same_ids_refl)
qed

text \<open>What \<open>remove\<close> does to the ids.\<close>

lemma remove_ids:
  "if nodes_by_id g (node_id (heap g a)) \<noteq> None \<and> \<not> ignore_remove (heap g a)
      \<and> fst (remove a g) = None
   then nodes (snd (remove a g)) = remove1 a (nodes g)
      \<and> nodes_by_id (snd (remove a g)) = (nodes_by_id g)(- 1 := None)
      \<and> last_node_id (snd (remove a g)) = last_node_id g
      \<and> (\<forall>b. node_id (heap (snd (remove a g)) b) = (if b = a then - 1 else node_id (heap g b)))
   else same_ids g (snd (remove a g))"
proof -
  let ?is = "case inputs (heap g a) of None \<Rightarrow> [] | Some ins \<Rightarrow> [0..<length ins]"
  obtain r1 g1 where d1: "disconnect_inputs a ?is g = (r1, g1)"
    by (cases "disconnect_inputs a ?is g") auto
  let ?os = "case outputs (heap g1 a) of None \<Rightarrow> [] | Some outs \<Rightarrow> [0..<length outs]"
  obtain r2 g2 where d2: "disconnect_outputs a ?os g1 = (r2, g2)"
    by (cases "disconnect_outputs a ?os g1") auto
  from disconnect_inputs_ids [of g a ?is] d1 have s1: "same_ids g g1"
    by simp
  from disconnect_outputs_ids [of g1 a ?os] d2 have "same_ids g1 g2"
    by simp
  with s1 have s2: "same_ids g g2"
    by (rule same_ids_trans)
  let ?g6 = "g2\<lparr>heap := (heap g2)(a := (heap g2 a)\<lparr>node_id := - 1, has_graph := False\<rparr>),
                nodes := remove1 a (nodes g2), nodes_by_id := (nodes_by_id g2)(- 1 := None)\<rparr>"
  from updateExecutionOrder_ids [of ?g6] s2
  have fin: "nodes (updateExecutionOrder ?g6) = remove1 a (nodes g)
      \<and> nodes_by_id (updateExecutionOrder ?g6) = (nodes_by_id g)(- 1 := None)
      \<and> last_node_id (updateExecutionOrder ?g6) = last_node_id g
      \<and> (\<forall>b. node_id (heap (updateExecutionOrder ?g6) b) = (if b = a then - 1 else node_id (heap g b)))"
    by (simp add: same_ids_def)
  show ?thesis
  proof (cases "nodes_by_id g (node_id (heap g a)) = None \<or> ignore_remove (heap g a)")
    case True
    then show ?thesis by (auto simp: remove_def same_ids_refl)
  next
    case False
    show ?thesis
    proof (cases r1)
      case (Some e)
      with False d1 s1 show ?thesis by (auto simp: remove_def)
    next
      case n1: None
      show ?thesis
      proof (cases r2)
        case (Some e)
        with False d1 d2 n1 s2 show ?thesis by (auto simp: remove_def)
      next
        case None
        with False d1 d2 n1 fin show ?thesis
          by (auto simp: remove_def Let_def)
      qed
    qed
  qed
qed

subsection \<open>remove and getNodeById\<close>

text \<open>
  C3. The claim is that after \<open>remove(n)\<close> no link refers to the id \<open>n\<close> had and
  \<open>getNodeById\<close> of that id returns \<open>null\<close>. The code breaks the second part: for
  every registered node that can be removed, when \<open>remove\<close> returns, \<open>getNodeById\<close> of
  the id the node had still returns the node. \<open>remove\<close> sets \<open>node.id = -1\<close> first and
  then deletes \<open>_nodes_by_id[node.id]\<close>, the entry of \<open>-1\<close>; the node has left
  \<open>_nodes\<close> and its own id is \<open>-1\<close>.
\<close>

theorem remove_keeps_id_entry:
  assumes "nodes_by_id g (node_id (heap g a)) = Some a" and "node_id (heap g a) \<noteq> - 1"
    and "\<not> ignore_remove (heap g a)" and "fst (remove a g) = None"
  shows "getNodeById (snd (remove a g)) (node_id (heap g a)) = Some a
       \<and> node_id (heap (snd (remove a g)) a) = - 1
       \<and> nodes (snd (remove a g)) = remove1 a (nodes g)"
  using remove_ids [of g a] assms by (simp add: getNodeById_def)

theorem remove_keeps_id_entry_witness:
  "getNodeById one_node_graph 0 = Some 0
   \<and> fst (remove 0 one_node_graph) = None
   \<and> getNodeById (snd (remove 0 one_node_graph)) 0 = Some 0
   \<and> node_id (heap (snd (remove 0 one_node_graph)) 0) = - 1
   \<and> nodes (snd (remove 0 one_node_graph)) = []"
proof -
  have r: "fst (remove 0 one_node_graph) = None"
    by (simp add: remove_def one_node_graph_eq Let_def)
  have "nodes_by_id one_node_graph (node_id (heap one_node_graph 0)) = Some 0"
    and "node_id (heap one_node_graph 0) \<noteq> - 1"
    and "\<not> ignore_remove (heap one_node_graph 0)"
    by (simp_all add: one_node_graph_eq)
  from remove_keeps_id_entry [OF this r] r show ?thesis
    by (simp add: one_node_graph_eq getNodeById_def)
qed

subsection \<open>Ids under add and remove\<close>

lemma ids_inv_same_ids: "same_ids g g' \<Longrightarrow> ids_inv A g \<Longrightarrow> ids_inv A g'"
  unfolding ids_inv_def same_ids_def by simp

lemma add_ids_inv:
  assumes "ids_inv A g" and "a \<in> A" and "add M a skip g = (r, g')"
  shows "ids_inv A g'
       \<and> (if r = Inr (Some a)
          then node_id (heap g a) = - 1 \<and> node_id (heap g' a) = last_node_id g
             \<and> last_node_id g' = last_node_id g + 1
             \<and> (\<forall>b. b \<noteq> a \<longrightarrow> node_id (heap g' b) = node_id (heap g b))
          else g' = g \<and> r \<noteq> Inr (Some a) \<and> (\<forall>b. r \<noteq> Inr (Some b)))"
proof (cases "node_id (heap g a) \<noteq> - 1 \<and> nodes_by_id g (node_id (heap g a)) \<noteq> None")
  case True
  with assms show ?thesis by (auto simp: add_def)
next
  case False
  with assms(1,2) have det: "node_id (heap g a) = - 1"
    by (auto simp: ids_inv_def)
  show ?thesis
  proof (cases "M \<le> length (nodes g)")
    case True
    with det assms show ?thesis by (auto simp: add_def)
  next
    case False
    let ?g3 = "g\<lparr>last_node_id := last_node_id g + 1,
                heap := (heap g)(a := (heap g a)\<lparr>node_id := last_node_id g, has_graph := True\<rparr>),
                nodes := nodes g @ [a],
                nodes_by_id := (nodes_by_id g)(last_node_id g \<mapsto> a)\<rparr>"
    have g': "g' = (if skip then ?g3 else updateExecutionOrder ?g3)" and r: "r = Inr (Some a)"
      using assms(3) det False by (auto simp: add_def Let_def)
    have s: "same_ids ?g3 g'"
      using g' updateExecutionOrder_ids [of ?g3] by (simp add: same_ids_refl)
    from assms(1) det have notin: "a \<notin> set (nodes g)"
      by (auto simp: ids_inv_def)
    have "ids_inv A ?g3"
      using assms(1,2) notin unfolding ids_inv_def by auto
    with s have "ids_inv A g'"
      by (rule ids_inv_same_ids)
    moreover from s have "node_id (heap g' a) = last_node_id g
        \<and> last_node_id g' = last_node_id g + 1
        \<and> (\<forall>b. b \<noteq> a \<longrightarrow> node_id (heap g' b) = node_id (heap g b))"
      by (simp add: same_ids_def)
    ultimately show ?thesis
      using det r by simp
  qed
qed

lemma remove_ids_inv:
  assumes "ids_inv A g"
  shows "ids_inv A (snd (remove a g)) \<and> last_node_id (snd (remove a g)) = last_node_id g
       \<and> (\<forall>b. node_id (heap (snd (remove a g)) b) = node_id (heap g b)
               \<or> node_id (heap (snd (remove a g)) b) = - 1)"
proof (cases "nodes_by_id g (node_id (heap g a)) \<noteq> None \<and> \<not> ignore_remove (heap g a)
      \<and> fst (remove a g) = None")
  case True
  with remove_ids [of g a]
  have e: "nodes (snd (remove a g)) = remove1 a (nodes g)"
    "nodes_by_id (snd (remove a g)) = (nodes_by_id g)(- 1 := None)"
    "last_node_id (snd (remove a g)) = last_node_id g"
    "\<And>b. node_id (heap (snd (remove a g)) b) = (if b = a then - 1 else node_id (heap g b))"
    by simp_all
  from assms have "ids_inv A (snd (remove a g))"
    unfolding ids_inv_def e by (auto simp: set_remove1_eq)
  with e show ?thesis by simp
next
  case False
  with remove_ids [of g a] have s: "same_ids g (snd (remove a g))"
    by presburger
  from ids_inv_same_ids [OF s assms] s show ?thesis
    by (simp add: same_ids_def)
qed

lemma apply_op_ids:
  assumes "ids_inv A g" and "op_node op \<in> A" and "apply_op M op g = (r, g')"
  shows "ids_inv A g' \<and> last_node_id g \<le> last_node_id g'
       \<and> (\<forall>i. r = Some i \<longrightarrow> i = last_node_id g \<and> last_node_id g' = i + 1)
       \<and> (\<forall>b. node_id (heap g' b) = node_id (heap g b) \<or> node_id (heap g' b) = - 1
               \<or> r = Some (node_id (heap g' b)))"
proof (cases op)
  case (Add a skip)
  obtain r0 g0 where a: "add M a skip g = (r0, g0)"
    by (cases "add M a skip g") auto
  from Add assms(2) have "a \<in> A" by simp
  note inv = add_ids_inv [OF assms(1) this a]
  show ?thesis
  proof (cases "r0 = Inr (Some a)")
    case True
    with a Add assms(3) have e: "g' = g0" "r = Some (node_id (heap g0 a))"
      by (auto simp: apply_op_def)
    from inv True have f: "ids_inv A g0" "node_id (heap g0 a) = last_node_id g"
      "last_node_id g0 = last_node_id g + 1"
      "\<And>b. b \<noteq> a \<Longrightarrow> node_id (heap g0 b) = node_id (heap g b)"
      by simp_all
    have "node_id (heap g0 b) = node_id (heap g b) \<or> node_id (heap g0 b) = - 1
               \<or> r = Some (node_id (heap g0 b))" for b
      using e(2) f(4) [of b] by (cases "b = a") simp_all
    with e f(1,2,3) show ?thesis
      by simp
  next
    case False
    with inv have "g0 = g" and "\<forall>b. r0 \<noteq> Inr (Some b)"
      by simp_all
    with a Add assms(3) have "g' = g" and "r = None"
      by (auto simp: apply_op_def split: sum.splits option.splits)
    with assms(1) show ?thesis by simp
  qed
next
  case (Remove a)
  with assms(3) have "g' = snd (remove a g)" and "r = None"
    by (simp_all add: apply_op_def)
  with remove_ids_inv [OF assms(1), of a] show ?thesis
    by simp
qed

lemma run_ids:
  assumes "ids_inv A g" and "op_node ` set ops \<subseteq> A" and "run M ops g = (ids, gf)"
  shows "ids_inv A gf \<and> last_node_id g \<le> last_node_id gf \<and> sorted_wrt (<) ids
       \<and> (\<forall>i\<in>set ids. last_node_id g \<le> i \<and> i < last_node_id gf)
       \<and> (\<forall>b. node_id (heap gf b) = node_id (heap g b) \<or> node_id (heap gf b) = - 1
               \<or> node_id (heap gf b) \<in> set ids)"
  using assms
proof (induction ops arbitrary: g ids gf)
  case Nil
  then show ?case by simp
next
  case (Cons op ops)
  obtain r g' where a: "apply_op M op g = (r, g')"
    by (cases "apply_op M op g") auto
  obtain ids' gf' where b: "run M ops g' = (ids', gf')"
    by (cases "run M ops g'") auto
  from Cons.prems(3) a b have gf: "gf = gf'" and ids: "ids = (case r of None \<Rightarrow> [] | Some i \<Rightarrow> [i]) @ ids'"
    by simp_all
  from Cons.prems(2) have "op_node op \<in> A" and sub: "op_node ` set ops \<subseteq> A"
    by simp_all
  from apply_op_ids [OF Cons.prems(1) this(1) a]
  have s1: "ids_inv A g'" "last_node_id g \<le> last_node_id g'"
    "\<And>i. r = Some i \<Longrightarrow> i = last_node_id g \<and> last_node_id g' = i + 1"
    "\<And>b. node_id (heap g' b) = node_id (heap g b) \<or> node_id (heap g' b) = - 1
               \<or> r = Some (node_id (heap g' b))"
    by blast+
  from Cons.IH [OF s1(1) sub b]
  have s2: "ids_inv A gf'" "last_node_id g' \<le> last_node_id gf'" "sorted_wrt (<) ids'"
    "\<And>i. i \<in> set ids' \<Longrightarrow> last_node_id g' \<le> i \<and> i < last_node_id gf'"
    "\<And>b. node_id (heap gf' b) = node_id (heap g' b) \<or> node_id (heap gf' b) = - 1
               \<or> node_id (heap gf' b) \<in> set ids'"
    by blast+
  show ?case
  proof (cases r)
    case None
    have "\<forall>i\<in>set ids'. last_node_id g \<le> i \<and> i < last_node_id gf'"
      using s1(2) s2(4) by fastforce
    moreover have "\<forall>b. node_id (heap gf' b) = node_id (heap g b) \<or> node_id (heap gf' b) = - 1
               \<or> node_id (heap gf' b) \<in> set ids'"
    proof
      fix b
      from s1(4) [of b] None have "node_id (heap g' b) = node_id (heap g b) \<or> node_id (heap g' b) = - 1"
        by simp
      with s2(5) [of b] show "node_id (heap gf' b) = node_id (heap g b) \<or> node_id (heap gf' b) = - 1
               \<or> node_id (heap gf' b) \<in> set ids'"
        by auto
    qed
    ultimately show ?thesis
      using s1(2) s2(1,2,3) gf ids None by simp
  next
    case (Some i)
    from s1(3) [OF Some] have i: "i = last_node_id g" "last_node_id g' = i + 1"
      by simp_all
    have "sorted_wrt (<) (i # ids')"
      using s2(3,4) i by fastforce
    moreover have "\<forall>j\<in>set (i # ids'). last_node_id g \<le> j \<and> j < last_node_id gf'"
      using s2(2,4) i by fastforce
    moreover have "\<forall>b. node_id (heap gf' b) = node_id (heap g b) \<or> node_id (heap gf' b) = - 1
               \<or> node_id (heap gf' b) \<in> set (i # ids')"
    proof
      fix b
      from s1(4) [of b] Some have "node_id (heap g' b) = node_id (heap g b) \<or> node_id (heap g' b) = - 1
          \<or> node_id (heap g' b) = i"
        by auto
      with s2(5) [of b] show "node_id (heap gf' b) = node_id (heap g b) \<or> node_id (heap gf' b) = - 1
               \<or> node_id (heap gf' b) \<in> set (i # ids')"
        by auto
    qed
    ultimately show ?thesis
      using s1(2) s2(1,2) gf ids Some by simp
  qed
qed

lemma new_LGraph_ids_inv: "\<forall>a\<in>A. node_id (h a) = - 1 \<Longrightarrow> ids_inv A (new_LGraph h)"
  by (simp add: ids_inv_def new_LGraph_def)

lemma ids_inv_distinct:
  assumes "ids_inv A g"
  shows "distinct (map (\<lambda>a. node_id (heap g a)) (nodes g))"
proof -
  have "inj_on (\<lambda>a. node_id (heap g a)) (set (nodes g))"
  proof (rule inj_onI)
    fix a b
    assume a: "a \<in> set (nodes g)" and b: "b \<in> set (nodes g)"
      and e: "node_id (heap g a) = node_id (heap g b)"
    from assms have sub: "set (nodes g) \<subseteq> A"
      and live: "\<forall>c\<in>set (nodes g). node_id (heap g c) \<noteq> - 1"
      and reg: "\<forall>c\<in>A. node_id (heap g c) \<noteq> - 1 \<longrightarrow> nodes_by_id g (node_id (heap g c)) = Some c"
      unfolding ids_inv_def by blast+
    from sub live reg a have c1: "nodes_by_id g (node_id (heap g a)) = Some a"
      by blast
    from sub live reg b have c2: "nodes_by_id g (node_id (heap g b)) = Some b"
      by blast
    have "Some a = nodes_by_id g (node_id (heap g a))"
      by (simp only: c1)
    also have "\<dots> = nodes_by_id g (node_id (heap g b))"
      by (simp only: e)
    also have "\<dots> = Some b"
      by (rule c2)
    finally show "a = b"
      by simp
  qed
  with assms show ?thesis
    by (simp add: distinct_map ids_inv_def)
qed

text \<open>The graphs that such calls build list each of their nodes once in every order.\<close>

lemma ids_inv_coverage_wf:
  assumes "ids_inv A g"
  shows "coverage_wf g"
proof -
  from assms have d: "distinct (nodes g)" and sub: "set (nodes g) \<subseteq> A"
    and ran: "\<And>k t. nodes_by_id g k = Some t \<Longrightarrow> t \<in> A"
    and live: "\<And>c. c \<in> set (nodes g) \<Longrightarrow> node_id (heap g c) \<noteq> - 1"
    and reg: "\<And>c. c \<in> A \<Longrightarrow> node_id (heap g c) \<noteq> - 1
        \<Longrightarrow> nodes_by_id g (node_id (heap g c)) = Some c"
    unfolding ids_inv_def by blast+
  from ids_inv_distinct [OF assms] have inj: "inj_on (nid g) (set (nodes g))"
    by (simp add: distinct_map)
  have "b = t" if t: "nodes_by_id g k = Some t" and b: "b \<in> set (nodes g)"
    and e: "nid g b = nid g t" for k t b
  proof -
    from b sub have bA: "b \<in> A" by blast
    from live [OF b] have nb: "nid g b \<noteq> - 1" .
    with e have nt: "nid g t \<noteq> - 1" by simp
    have "Some b = nodes_by_id g (nid g b)"
      by (simp only: reg [OF bA nb])
    also have "\<dots> = nodes_by_id g (nid g t)"
      by (simp only: e)
    also have "\<dots> = Some t"
      by (rule reg [OF ran [OF t] nt])
    finally show ?thesis by simp
  qed
  with d inj show ?thesis
    unfolding coverage_wf_def by blast
qed

lemma run_coverage_wf:
  assumes "\<forall>op\<in>set ops. node_id (h (op_node op)) = - 1"
  shows "coverage_wf (snd (run M ops (new_LGraph h)))"
proof -
  obtain ids gf where r: "run M ops (new_LGraph h) = (ids, gf)"
    by (cases "run M ops (new_LGraph h)") auto
  from assms have "\<forall>a\<in>op_node ` set ops. node_id (h a) = - 1"
    by auto
  from run_ids [OF new_LGraph_ids_inv [OF this] subset_refl r]
  have "ids_inv (op_node ` set ops) gf"
    by blast
  with r show ?thesis
    by (simp add: ids_inv_coverage_wf)
qed

text \<open>
  C7, as amended. Start from a fresh graph, and let every node the caller passes to
  \<open>add\<close> or \<open>remove\<close> be detached (\<open>id = -1\<close>) at the start. Then after any sequence
  of \<open>add\<close> and \<open>remove\<close> calls the ids under which nodes were registered are strictly
  increasing in the order of the calls: each new id is greater than all ids given
  before, so no two nodes, live or removed, ever had the same id. The live nodes have
  pairwise different ids, each of them one of these ids.
\<close>

theorem ids_monotone:
  assumes "\<forall>op\<in>set ops. node_id (h (op_node op)) = - 1"
  shows "sorted_wrt (<) (fst (run M ops (new_LGraph h)))
       \<and> distinct (map (\<lambda>a. node_id (heap (snd (run M ops (new_LGraph h))) a))
                    (nodes (snd (run M ops (new_LGraph h)))))
       \<and> (\<forall>a\<in>set (nodes (snd (run M ops (new_LGraph h)))).
             node_id (heap (snd (run M ops (new_LGraph h))) a)
               \<in> set (fst (run M ops (new_LGraph h))))"
proof -
  let ?A = "op_node ` set ops"
  obtain ids gf where r: "run M ops (new_LGraph h) = (ids, gf)"
    by (cases "run M ops (new_LGraph h)") auto
  from assms have init: "\<forall>a\<in>?A. node_id (h a) = - 1"
    by auto
  from run_ids [OF new_LGraph_ids_inv [OF init] subset_refl r]
  have inv: "ids_inv ?A gf" and srt: "sorted_wrt (<) ids"
    and ids: "\<And>b. node_id (heap gf b) = node_id (heap (new_LGraph h) b) \<or> node_id (heap gf b) = - 1
               \<or> node_id (heap gf b) \<in> set ids"
    by blast+
  have "node_id (heap gf a) \<in> set ids" if "a \<in> set (nodes gf)" for a
  proof -
    from inv that have "a \<in> ?A" and n: "node_id (heap gf a) \<noteq> - 1"
      by (auto simp: ids_inv_def)
    with init have "node_id (heap (new_LGraph h) a) = - 1"
      unfolding new_LGraph_def by auto
    with ids [of a] n show ?thesis by simp
  qed
  with srt ids_inv_distinct [OF inv] r show ?thesis
    by simp
qed

lemma run_example:
  "fst (run 1000 example_ops (new_LGraph (\<lambda>a. detached))) = [0, 1, 2]
   \<and> nodes (snd (run 1000 example_ops (new_LGraph (\<lambda>a. detached)))) = [2, 0]
   \<and> map (\<lambda>a. node_id (heap (snd (run 1000 example_ops (new_LGraph (\<lambda>a. detached)))) a)) [2, 0] = [1, 2]"
  by (simp add: example_ops_def apply_op_def add_def remove_def new_LGraph_def detached_def order_defs)

theorem ids_monotone_witness:
  "fst (run 1000 example_ops (new_LGraph (\<lambda>a. detached))) = [0, 1, 2]
   \<and> sorted_wrt (<) (fst (run 1000 example_ops (new_LGraph (\<lambda>a. detached))))
   \<and> nodes (snd (run 1000 example_ops (new_LGraph (\<lambda>a. detached)))) = [2, 0]
   \<and> distinct (map (\<lambda>a. node_id (heap (snd (run 1000 example_ops (new_LGraph (\<lambda>a. detached)))) a))
                 (nodes (snd (run 1000 example_ops (new_LGraph (\<lambda>a. detached))))))"
proof -
  have "\<forall>op\<in>set example_ops. node_id (detached) = - 1"
    by (simp add: detached_def)
  from ids_monotone [of example_ops "\<lambda>a. detached" 1000, OF this] run_example
  show ?thesis
    by simp
qed

text \<open>
  C7 as stated fails: \<open>add\<close> keeps the id a node brings and does not move the counter
  past it. After \<open>add\<close> of a node with id 1 and of two detached nodes, the first and
  the third node are both live with id 1.
\<close>

theorem ids_monotone_counterexample:
  "fst (run 1000 [Add 0 False, Add 2 False, Add 3 False] (new_LGraph preassigned)) = [1, 0, 1]
   \<and> nodes (snd (run 1000 [Add 0 False, Add 2 False, Add 3 False] (new_LGraph preassigned))) = [0, 2, 3]
   \<and> map (\<lambda>a. node_id (heap (snd (run 1000 [Add 0 False, Add 2 False, Add 3 False] (new_LGraph preassigned))) a)) [0, 2, 3] = [1, 0, 1]"
  by (simp add: apply_op_def add_def new_LGraph_def preassigned_def detached_def order_defs)

subsection \<open>add at capacity\<close>

text \<open>
  C5, as amended. When the node count has reached the configured maximum, \<open>add(node)\<close>
  of a node that is not registered (its id is \<open>-1\<close>, or no node is registered under
  its id) throws at once and leaves the graph exactly as it was; \<open>add\<close> of a node that
  is registered returns \<open>undefined\<close> without throwing, the graph also unchanged.
\<close>

theorem add_at_capacity:
  assumes "MAX_NUMBER_OF_NODES \<le> length (nodes g)"
  shows "add MAX_NUMBER_OF_NODES a skip g =
           (if node_id (heap g a) \<noteq> - 1 \<and> nodes_by_id g (node_id (heap g a)) \<noteq> None
            then Inr None
            else Inl (Thrown ''LiteGraph: max number of nodes in a graph reached''), g)"
  using assms by (simp add: add_def)

theorem add_at_capacity_witness:
  "1 \<le> length (nodes one_node_graph)
   \<and> add 1 2 False one_node_graph
       = (Inl (Thrown ''LiteGraph: max number of nodes in a graph reached''), one_node_graph)"
proof -
  have h: "(1::nat) \<le> length (nodes one_node_graph)"
    by (simp add: one_node_graph_eq)
  from add_at_capacity [OF h, of 2 False] h show ?thesis
    by (simp add: one_node_graph_eq)
qed

text \<open>
  C5 as stated fails: with a maximum of one node and one node in the graph, \<open>add\<close> of
  that same node does not throw.
\<close>

theorem add_at_capacity_counterexample:
  "1 \<le> length (nodes one_node_graph)
   \<and> add 1 0 False one_node_graph = (Inr None, one_node_graph)"
  by (simp add: add_def one_node_graph_eq)

subsection \<open>Global inputs\<close>




subsection \<open>setInputData\<close>

text \<open>
  C4. The claim is that \<open>setInputData(name, value)\<close> returns normally and assigns the
  value to every node whose title is \<open>name\<close>. The code does not: for every graph, name
  and value the call throws a \<open>TypeError\<close> before it looks at any node, because it
  calls \<open>this.findNodesByName\<close>, which the prototype does not define; the graph is left
  as it was.
\<close>

theorem setInputData_throws:
  "setInputData parseFloat name v g
     = (Some (TypeError ''this.findNodesByName is not a function''), g)"
  by (simp add: setInputData_def LGraph_prototype_def)

subsection \<open>Errors in runStep\<close>

lemma dispatch_keeps:
  "\<forall>a. keeps \<pi> (node_callback H a ev) \<Longrightarrow> \<pi> (snd (dispatch H ev as g)) = \<pi> g"
proof (induction as arbitrary: g)
  case Nil
  then show ?case by simp
next
  case (Cons a as)
  from Cons.prems have k: "\<pi> (snd (call_optional (node_callback H a ev) g)) = \<pi> g"
    by (simp add: keeps_def)
  show ?case
  proof (cases "call_optional (node_callback H a ev) g")
    case (Pair r g')
    with k Cons.IH [OF Cons.prems, of g'] show ?thesis
      by (cases r) simp_all
  qed
qed

lemma stop_keeps:
  assumes "stop_callbacks_keep H \<pi>"
    and "\<And>g s. \<pi> (g\<lparr>status := s\<rparr>) = \<pi> g"
    and "\<And>g t. \<pi> (g\<lparr>execution_timer_id := t\<rparr>) = \<pi> g"
  shows "\<pi> (snd (stop H g)) = \<pi> g"
proof (cases "status g = STATUS_STOPPED")
  case True
  then show ?thesis by (simp add: stop_def)
next
  case False
  obtain r g1 where c: "call_optional (onStopEvent H) (g\<lparr>status := STATUS_STOPPED\<rparr>) = (r, g1)"
    by (cases "call_optional (onStopEvent H) (g\<lparr>status := STATUS_STOPPED\<rparr>)") auto
  from assms(1) have "\<pi> (snd (call_optional (onStopEvent H) (g\<lparr>status := STATUS_STOPPED\<rparr>)))
      = \<pi> (g\<lparr>status := STATUS_STOPPED\<rparr>)"
    by (simp add: stop_callbacks_keep_def keeps_def)
  with c assms(2) have g1: "\<pi> g1 = \<pi> g"
    by simp
  from assms(1) have "\<forall>a. keeps \<pi> (node_callback H a ''onStop'')"
    by (simp add: stop_callbacks_keep_def)
  from dispatch_keeps [OF this]
  have "\<pi> (snd (sendEventToAllNodes H ''onStop'' (g1\<lparr>execution_timer_id := None\<rparr>)))
      = \<pi> (g1\<lparr>execution_timer_id := None\<rparr>)"
    by (simp add: sendEventToAllNodes_def)
  with g1 assms(3) have "\<pi> (snd (sendEventToAllNodes H ''onStop'' (g1\<lparr>execution_timer_id := None\<rparr>))) = \<pi> g"
    by simp
  with False c g1 show ?thesis
    by (cases r) (simp_all add: stop_def)
qed

lemma stop_status:
  assumes "stop_callbacks_keep H status"
  shows "status (snd (stop H g)) = STATUS_STOPPED"
proof (cases "status g = STATUS_STOPPED")
  case True
  then show ?thesis by (simp add: stop_def)
next
  case False
  obtain r g1 where c: "call_optional (onStopEvent H) (g\<lparr>status := STATUS_STOPPED\<rparr>) = (r, g1)"
    by (cases "call_optional (onStopEvent H) (g\<lparr>status := STATUS_STOPPED\<rparr>)") auto
  from assms have "status (snd (call_optional (onStopEvent H) (g\<lparr>status := STATUS_STOPPED\<rparr>)))
      = status (g\<lparr>status := STATUS_STOPPED\<rparr>)"
    by (simp add: stop_callbacks_keep_def keeps_def)
  with c have g1: "status g1 = STATUS_STOPPED"
    by simp
  from assms have "\<forall>a. keeps status (node_callback H a ''onStop'')"
    by (simp add: stop_callbacks_keep_def)
  from dispatch_keeps [OF this]
  have "status (snd (sendEventToAllNodes H ''onStop'' (g1\<lparr>execution_timer_id := None\<rparr>)))
      = status (g1\<lparr>execution_timer_id := None\<rparr>)"
    by (simp add: sendEventToAllNodes_def)
  with False c g1 show ?thesis
    by (cases r) (simp_all add: stop_def)
qed

lemma stop_timer:
  assumes "status g \<noteq> STATUS_STOPPED" and "returns (onStopEvent H)"
    and "\<forall>a. keeps execution_timer_id (node_callback H a ''onStop'')"
  shows "execution_timer_id (snd (stop H g)) = None"
proof -
  obtain r g1 where c: "call_optional (onStopEvent H) (g\<lparr>status := STATUS_STOPPED\<rparr>) = (r, g1)"
    by (cases "call_optional (onStopEvent H) (g\<lparr>status := STATUS_STOPPED\<rparr>)") auto
  from assms(2) c have r: "r = None"
    by (auto simp: returns_def dest: spec [of _ "g\<lparr>status := STATUS_STOPPED\<rparr>"])
  from dispatch_keeps [OF assms(3)]
  have "execution_timer_id (snd (sendEventToAllNodes H ''onStop'' (g1\<lparr>execution_timer_id := None\<rparr>)))
      = execution_timer_id (g1\<lparr>execution_timer_id := None\<rparr>)"
    by (simp add: sendEventToAllNodes_def)
  with assms(1) c r show ?thesis
    by (simp add: stop_def)
qed

lemma dispatch_returns:
  "\<forall>a. returns (node_callback H a ev) \<Longrightarrow> fst (dispatch H ev as g) = None"
proof (induction as arbitrary: g)
  case Nil
  then show ?case by simp
next
  case (Cons a as)
  from Cons.prems have k: "fst (call_optional (node_callback H a ev) g) = None"
    by (simp add: returns_def)
  show ?case
  proof (cases "call_optional (node_callback H a ev) g")
    case (Pair r g')
    with k Cons.IH [OF Cons.prems, of g'] show ?thesis
      by simp
  qed
qed

lemma stop_returns:
  assumes "stop_callbacks_return H"
  shows "fst (stop H g) = None"
proof (cases "status g = STATUS_STOPPED")
  case True
  then show ?thesis by (simp add: stop_def)
next
  case False
  obtain r g1 where c: "call_optional (onStopEvent H) (g\<lparr>status := STATUS_STOPPED\<rparr>) = (r, g1)"
    by (cases "call_optional (onStopEvent H) (g\<lparr>status := STATUS_STOPPED\<rparr>)") auto
  from assms c have r: "r = None"
    by (auto simp: stop_callbacks_return_def returns_def
        dest: spec [of _ "g\<lparr>status := STATUS_STOPPED\<rparr>"])
  from assms have "\<forall>a. returns (node_callback H a ''onStop'')"
    by (simp add: stop_callbacks_return_def)
  from dispatch_returns [OF this]
  have "fst (sendEventToAllNodes H ''onStop'' (g1\<lparr>execution_timer_id := None\<rparr>)) = None"
    by (simp add: sendEventToAllNodes_def)
  with False c r show ?thesis
    by (simp add: stop_def)
qed

lemma ticks_abort:
  "ticks H n g = (Some e, g') \<Longrightarrow> n \<le> m \<Longrightarrow> ticks H m g = (Some e, g')"
proof (induction n arbitrary: m g)
  case 0
  then show ?case by simp
next
  case (Suc n)
  then obtain m' where m: "m = Suc m'" and le: "n \<le> m'"
    by (cases m) auto
  show ?case
  proof (cases "sendEventToAllNodes H ''onExecute'' g")
    case (Pair r g1)
    show ?thesis
    proof (cases r)
      case (Some e1)
      with Pair Suc.prems m show ?thesis by simp
    next
      case None
      show ?thesis
      proof (cases "call_optional (onExecuteStep H) (g1\<lparr>fixedtime := fixedtime g1 + fixedtime_lapse g1\<rparr>)")
        case (Pair r2 g2)
        show ?thesis
        proof (cases r2)
          case (Some e2)
          with Pair None \<open>sendEventToAllNodes H ''onExecute'' g = (r, g1)\<close> Suc.prems m
          show ?thesis by simp
        next
          case n2: None
          with Pair None \<open>sendEventToAllNodes H ''onExecute'' g = (r, g1)\<close> Suc.prems
          have "ticks H n g2 = (Some e, g')" by simp
          from Suc.IH [OF this le]
          show ?thesis
            using Pair None n2 \<open>sendEventToAllNodes H ''onExecute'' g = (r, g1)\<close> m by simp
        qed
      qed
    qed
  qed
qed

text \<open>
  C6, as amended. Suppose the block under \<open>try\<close> of a \<open>runStep\<close> call throws \<open>err\<close>,
  leaving the graph \<open>g1\<close> (a callback of a node threw in some tick, or a callback of the
  graph). With \<open>throw_errors\<close> set, \<open>runStep\<close> throws \<open>err\<close> again, and the graph is
  \<open>g1\<close> with \<open>errors_in_execution\<close> true and no other change. Without it, \<open>runStep\<close>
  sets the flag and calls \<open>stop\<close>, and ends as \<open>stop\<close> does:
  \<^item> on a graph that is stopped already, \<open>stop\<close> does nothing, and \<open>runStep\<close> returns;
  \<^item> on any other graph, \<open>runStep\<close> returns when the callbacks that \<open>stop\<close> runs
    return, and the timer is cancelled when \<open>onStopEvent\<close> returns and the \<open>onStop\<close>
    callbacks leave the timer alone;
  \<^item> the status is stopped, the flag is true and the structural data is that of \<open>g1\<close>,
    whenever the callbacks that \<open>stop\<close> runs leave these alone.

  A loop that threw in some iteration gives the same result however many more
  iterations were asked for: none of them runs.
\<close>

theorem runStep_error_containment:
  assumes "try_block H (if num = 0 then 1 else num)
             (g\<lparr>globaltime := 0.001 * (t0 - starttime g)\<rparr>) = (Some err, g1)"
  shows "runStep H True t0 t1 num g = (Some err, g1\<lparr>errors_in_execution := Some True\<rparr>)
       \<and> (status g1 = STATUS_STOPPED \<longrightarrow>
            runStep H False t0 t1 num g
              = (None, finish_step (t1 - t0) (g1\<lparr>errors_in_execution := Some True\<rparr>)))
       \<and> (stop_callbacks_return H \<longrightarrow> fst (runStep H False t0 t1 num g) = None)
       \<and> (status g1 \<noteq> STATUS_STOPPED \<and> returns (onStopEvent H)
            \<and> (\<forall>a. keeps execution_timer_id (node_callback H a ''onStop'')) \<longrightarrow>
            execution_timer_id (snd (runStep H False t0 t1 num g)) = None)
       \<and> (stop_callbacks_keep H status \<longrightarrow>
            status (snd (runStep H False t0 t1 num g)) = STATUS_STOPPED)
       \<and> (stop_callbacks_keep H errors_in_execution \<longrightarrow>
            errors_in_execution (snd (runStep H False t0 t1 num g)) = Some True)
       \<and> (stop_callbacks_keep H structure \<longrightarrow>
            structure (snd (runStep H False t0 t1 num g)) = structure g1)
       \<and> (\<forall>n e g0 g'. ticks H n g0 = (Some e, g') \<longrightarrow> (\<forall>m\<ge>n. ticks H m g0 = (Some e, g')))"
proof -
  let ?g2 = "g1\<lparr>errors_in_execution := Some True\<rparr>"
  obtain r g3 where s: "stop H ?g2 = (r, g3)"
    by (cases "stop H ?g2") auto
  have lenient: "runStep H False t0 t1 num g
      = (case r of Some e \<Rightarrow> (Some e, g3) | None \<Rightarrow> (None, finish_step (t1 - t0) g3))"
    using assms s by (simp add: runStep_def Let_def split: option.splits)
  have strict: "runStep H True t0 t1 num g = (Some err, ?g2)"
    using assms by (simp add: runStep_def Let_def)
  have stopped: "runStep H False t0 t1 num g = (None, finish_step (t1 - t0) ?g2)"
    if "status g1 = STATUS_STOPPED"
    using that assms by (simp add: runStep_def Let_def stop_def)
  have out: "fst (runStep H False t0 t1 num g) = None"
    if "stop_callbacks_return H"
    using stop_returns [OF that, of ?g2] lenient s
    by (cases r) simp_all
  have tm: "execution_timer_id (snd (runStep H False t0 t1 num g)) = None"
    if "status g1 \<noteq> STATUS_STOPPED" "returns (onStopEvent H)"
      "\<forall>a. keeps execution_timer_id (node_callback H a ''onStop'')"
    using stop_timer [OF _ that(2,3), of ?g2] that(1) lenient s
    by (cases r) (simp_all add: finish_step_def Let_def)
  have st: "status (snd (runStep H False t0 t1 num g)) = STATUS_STOPPED"
    if "stop_callbacks_keep H status"
    using stop_status [OF that, of ?g2] lenient s
    by (cases r) (simp_all add: finish_step_def Let_def)
  have fl: "errors_in_execution (snd (runStep H False t0 t1 num g)) = Some True"
    if "stop_callbacks_keep H errors_in_execution"
    using stop_keeps [OF that, of ?g2] lenient s
    by (cases r) (simp_all add: finish_step_def Let_def)
  have sr: "structure (snd (runStep H False t0 t1 num g)) = structure g1"
    if "stop_callbacks_keep H structure"
    using stop_keeps [OF that, of ?g2] lenient s
    by (cases r) (simp_all add: finish_step_def Let_def structure_def)
  from strict stopped out tm st fl sr ticks_abort show ?thesis
    by blast
qed

lemma failing_callbacks_keep: "stop_callbacks_keep failing_callbacks \<pi>"
  by (simp add: stop_callbacks_keep_def keeps_def failing_callbacks_def call_optional_def)

lemma failing_callbacks_return: "stop_callbacks_return failing_callbacks"
  by (simp add: stop_callbacks_return_def returns_def failing_callbacks_def call_optional_def)

theorem runStep_error_containment_witness:
  "runStep failing_callbacks True 5 9 1 running_graph
     = (Some (Thrown ''boom''),
        running_graph\<lparr>globaltime := 0.001 * (5 - starttime running_graph),
                       errors_in_execution := Some True\<rparr>)
   \<and> execution_timer_id running_graph = Some 7
   \<and> fst (runStep failing_callbacks False 5 9 1 running_graph) = None
   \<and> execution_timer_id (snd (runStep failing_callbacks False 5 9 1 running_graph)) = None
   \<and> status (snd (runStep failing_callbacks False 5 9 1 running_graph)) = STATUS_STOPPED
   \<and> errors_in_execution (snd (runStep failing_callbacks False 5 9 1 running_graph)) = Some True
   \<and> nodes (snd (runStep failing_callbacks False 5 9 1 running_graph)) = [0]
   \<and> ticks failing_callbacks 3 running_graph = (Some (Thrown ''boom''), running_graph)"
proof -
  let ?g0 = "running_graph\<lparr>globaltime := 0.001 * (5 - starttime running_graph)\<rparr>"
  have t: "ticks failing_callbacks 1 running_graph = (Some (Thrown ''boom''), running_graph)"
    by (simp add: sendEventToAllNodes_def running_graph_def one_node_graph_eq
        failing_callbacks_def call_optional_def)
  have h: "try_block failing_callbacks (if (1::nat) = 0 then 1 else 1) ?g0
             = (Some (Thrown ''boom''), ?g0)"
    by (simp add: try_block_def sendEventToAllNodes_def running_graph_def one_node_graph_eq
        failing_callbacks_def call_optional_def)
  have run: "status ?g0 \<noteq> STATUS_STOPPED" and tid: "execution_timer_id running_graph = Some 7"
    by (simp_all add: running_graph_def STATUS_STOPPED_def STATUS_RUNNING_def)
  from failing_callbacks_return failing_callbacks_keep [of execution_timer_id]
  have q: "returns (onStopEvent failing_callbacks)"
    "\<forall>a. keeps execution_timer_id (node_callback failing_callbacks a ''onStop'')"
    by (simp_all add: stop_callbacks_return_def stop_callbacks_keep_def)
  note c = runStep_error_containment [OF h, of 9]
  from c have "\<forall>n e g0 g'. ticks failing_callbacks n g0 = (Some e, g')
      \<longrightarrow> (\<forall>m\<ge>n. ticks failing_callbacks m g0 = (Some e, g'))"
    by (elim conjE)
  with t have a: "ticks failing_callbacks 3 running_graph = (Some (Thrown ''boom''), running_graph)"
    by (metis one_le_numeral)
  from c have b: "runStep failing_callbacks True 5 9 1 running_graph
     = (Some (Thrown ''boom''), ?g0\<lparr>errors_in_execution := Some True\<rparr>)"
    by (elim conjE)
  from c failing_callbacks_return have d: "fst (runStep failing_callbacks False 5 9 1 running_graph) = None"
    by (elim conjE) simp
  from c run q have tm: "execution_timer_id (snd (runStep failing_callbacks False 5 9 1 running_graph)) = None"
    by (elim conjE) simp
  from c failing_callbacks_keep [of status] have e: "status (snd (runStep failing_callbacks False 5 9 1 running_graph)) = STATUS_STOPPED"
    by (elim conjE) simp
  from c failing_callbacks_keep [of errors_in_execution] have f: "errors_in_execution (snd (runStep failing_callbacks False 5 9 1 running_graph)) = Some True"
    by (elim conjE) simp
  from c failing_callbacks_keep [of "structure"] have "structure (snd (runStep failing_callbacks False 5 9 1 running_graph)) = structure ?g0"
    by (elim conjE) simp
  then have g: "nodes (snd (runStep failing_callbacks False 5 9 1 running_graph)) = [0]"
    by (simp add: structure_def running_graph_def one_node_graph_eq)
  from a b d tm tid e f g show ?thesis
    by simp
qed

text \<open>
  C6 as stated fails when a callback that \<open>stop\<close> runs throws: nothing catches it. With
  an \<open>onStopEvent\<close> that throws, \<open>runStep\<close> without \<open>throw_errors\<close> throws to its caller
  and the timer is still set, so the scheduler goes on calling \<open>runStep\<close>.
\<close>

theorem runStep_error_containment_counterexample:
  "execution_timer_id running_graph = Some 7
   \<and> fst (runStep throwing_stop_callbacks False 5 9 1 running_graph) = Some (Thrown ''late'')
   \<and> execution_timer_id (snd (runStep throwing_stop_callbacks False 5 9 1 running_graph)) = Some 7
   \<and> status (snd (runStep throwing_stop_callbacks False 5 9 1 running_graph)) = STATUS_STOPPED"
  by (simp add: runStep_def try_block_def stop_def sendEventToAllNodes_def running_graph_def
      one_node_graph_eq throwing_stop_callbacks_def failing_callbacks_def call_optional_def
      STATUS_STOPPED_def STATUS_RUNNING_def Let_def)

subsection \<open>processInputCode with an absent input\<close>

text \<open>
  C8. The claim is that a composer node with an absent input and no fallback for it
  yields the empty-code sentinel and does not throw. The code does not throw, but the
  sentinel stays in the local \<open>output_code\<close>: the function returns nothing and leaves
  the node, and so the code \<open>codes[0]\<close> it publishes, exactly as it was. A node that
  published a code before still publishes that code.
\<close>

theorem processInputCode_absent_input:
  assumes "i < 3" and "getInputCode i = None" and "onGetNullCode i = None"
  shows "processInputCode K EMPTY_CODE getInputCode onGetNullCode this = (None, this)"
proof -
  from assms(1) consider "i = 0" | "i = 1" | "i = 2"
    by linarith
  then show ?thesis
    using assms(2,3) by cases (simp_all add: processInputCode_def split: option.splits)
qed

theorem processInputCode_absent_input_witness:
  "processInputCode shader_consts empty_code two_inputs (\<lambda>i. None) mix_node = (None, mix_node)
   \<and> codes0 mix_node = Some (var_code ''mix_3'' 3)
   \<and> var_code ''mix_3'' 3 \<noteq> empty_code"
  using processInputCode_absent_input
    [of 2 two_inputs "\<lambda>i. None" shader_consts empty_code mix_node]
  by (simp add: two_inputs_def mix_node_def var_code_def empty_code_def new_ShaderCode_def)

text \<open>With the three inputs present the node publishes the merged code.\<close>

lemma processInputCode_example:
  "\<exists>n. processInputCode shader_consts empty_code three_inputs (\<lambda>i. None) mix_node = (None, n)
   \<and> map_option (body \<circ> fragment) (codes0 n)
       = Some (''float float_1 = 1.0;'' @ [CHR 0x0A] @ ''float float_0 = 1.0;'' @ [CHR 0x0A]
           @ ''float float_2 = 1.0;'' @ [CHR 0x0A]
           @ ''float mix_3 = mix(float_0,float_1,float_2);'' @ [CHR 0x0A])"
  by (simp add: processInputCode_def three_inputs_def mix_node_def var_code_def
      empty_code_def new_ShaderCode_def getOutputType_def getCode_def getVertexCode_def
      getFragmentCode_def getScope_def shader_consts_def new_P3ParamFunc_def setBody_def
      setIncludes_def new_CodePiece_def merge_def merge_piece_def getOutputVar_def
      assignment_code_def js_or_def js_str_def js_int_str_def Let_def)

end
